theory Spec2Isabelle
  imports Main
begin

section \<open>Data model\<close>

text \<open>
  The Go struct \<^verbatim>\<open>house\<close>, one element of a page's \<^verbatim>\<open>houses\<close> array. Go's
  \<^verbatim>\<open>int\<close> fields are only decoded and printed, never computed with, so they are
  modelled as unbounded integers.
\<close>

record house =
  ID :: int
  Address :: string
  Homeowner :: string
  Price :: int
  PhotoURL :: string

text \<open>
  What the program reads of an \<^verbatim>\<open>*http.Response\<close>: the status code and the body
  (the bytes a reader of \<^verbatim>\<open>resp.Body\<close> gets).
\<close>

record response =
  StatusCode :: int
  Body :: string

text \<open>
  The result of \<^verbatim>\<open>client.Get(url)\<close>, a Go pair \<^verbatim>\<open>(*http.Response, error)\<close>. The
  contract of \<^verbatim>\<open>net/http\<close>: with a nil error the response is non-nil
  (\<open>Resp\<close>); with a non-nil error the response is nil, except when the client's
  redirect policy failed, where the last response comes back together with the error
  (\<open>Err (Some r) e\<close>). An error is modelled by its message.
\<close>

datatype get_result = Resp response | Err "response option" string

text \<open>
  The network as one goroutine sees it: \<open>srv k url\<close> is what the goroutine's
  \<open>k\<close>-th call of \<^verbatim>\<open>client.Get\<close> (counted from 0) returns when it asks for
  \<open>url\<close>. The counter of calls issued so far is threaded through as state.
\<close>

type_synonym server = "nat \<Rightarrow> string \<Rightarrow> get_result"

definition client_Get :: "server \<Rightarrow> string \<Rightarrow> nat \<Rightarrow> get_result \<times> nat" where
  "client_Get srv url n = (srv n url, Suc n)"

definition maxTries :: nat where
  "maxTries = 20"

definition maxGoroutines :: nat where
  "maxGoroutines = 20"

definition StatusOK :: int where
  "StatusOK = 200"

text \<open>
  How a piece of the program ends: it runs on (\<open>Normal\<close>), it leaves its function
  by an early \<^verbatim>\<open>return\<close> (\<open>EarlyReturn\<close>), it ends the whole process through
  \<^verbatim>\<open>log.Fatalf\<close> with the formatted message (\<open>Fatal\<close>), or it dereferences a nil
  pointer (\<open>Panic\<close>).
\<close>

datatype outcome = Normal | EarlyReturn | Fatal string | Panic

section \<open>Page Fetcher: requestWithRetry\<close>

text \<open>
  \<^verbatim>\<open>requestWithRetry\<close> either returns the Go pair \<^verbatim>\<open>(resp, err)\<close> or ends the
  process in \<^verbatim>\<open>log.Fatalf("endpoint %s was consistently failing", url)\<close>.
\<close>

datatype fetched = Returns "response option" "string option" | Fatalf string

definition consistently_failing :: "string \<Rightarrow> string" where
  "consistently_failing url = ''endpoint '' @ url @ '' was consistently failing''"

text \<open>
  The loop \<^verbatim>\<open>for !successful\<close>: \<open>tries\<close> is the local counter, \<open>n\<close> the number
  of requests the goroutine has issued. The flag \<^verbatim>\<open>successful\<close> is only set
  right before a \<^verbatim>\<open>break\<close>, so the loop is left by one of the two breaks or by
  \<^verbatim>\<open>log.Fatalf\<close>.
\<close>

function requestWithRetry_loop :: "server \<Rightarrow> string \<Rightarrow> nat \<Rightarrow> nat \<Rightarrow> fetched \<times> nat" where
  "requestWithRetry_loop srv url tries n =
     (if tries \<ge> maxTries then (Fatalf (consistently_failing url), n)
      else (case client_Get srv url n of
              (Err resp err, n') \<Rightarrow> (Returns resp (Some err), n')
            | (Resp resp, n') \<Rightarrow>
                if StatusCode resp = StatusOK then (Returns (Some resp) None, n')
                else requestWithRetry_loop srv url (tries + 1) n'))"
  by pat_completeness auto
termination
  by (relation "measure (\<lambda>(srv, url, tries, n). maxTries - tries)") auto

declare requestWithRetry_loop.simps [simp del]

definition requestWithRetry :: "server \<Rightarrow> string \<Rightarrow> nat \<Rightarrow> fetched \<times> nat" where
  "requestWithRetry srv url n = requestWithRetry_loop srv url 0 n"

text \<open>
  A response was received and its status is not 200: the one case the loop retries.
\<close>

definition non_ok :: "get_result \<Rightarrow> bool" where
  "non_ok g = (case g of Resp r \<Rightarrow> StatusCode r \<noteq> StatusOK | Err resp err \<Rightarrow> False)"

section \<open>Formatting: Sprintf, strings.TrimRight, filepath.Ext\<close>

text \<open>
  \<^verbatim>\<open>%d\<close> of a Go \<^verbatim>\<open>int\<close>: decimal digits, a leading minus sign for a negative
  number.
\<close>

definition digit_char :: "nat \<Rightarrow> char" where
  "digit_char d = ''0123456789'' ! d"

fun digits :: "nat \<Rightarrow> string" where
  "digits n = (if n < 10 then [digit_char n] else digits (n div 10) @ [digit_char (n mod 10)])"

definition itoa :: "int \<Rightarrow> string" where
  "itoa i = (if i < 0 then CHR ''-'' # digits (nat (- i)) else digits (nat i))"

text \<open>
  \<^verbatim>\<open>strings.TrimRight(s, cutset)\<close> removes every trailing character of \<open>s\<close> that
  occurs in \<open>cutset\<close>. The program's cutset is the ASCII dot, whose byte never occurs
  inside a multi-byte UTF-8 sequence, so bytes stand for Go's runes here.
\<close>

definition TrimRight :: "string \<Rightarrow> string \<Rightarrow> string" where
  "TrimRight s cutset = rev (dropWhile (\<lambda>c. c \<in> set cutset) (rev s))"

text \<open>
  \<^verbatim>\<open>filepath.Ext(path)\<close> (Unix separator): scanning from the end of \<open>path\<close> and
  stopping at the first \<^verbatim>\<open>/\<close>, the suffix that begins at the first dot met, the dot
  included; empty when no dot is met. \<open>Ext_scan\<close> walks the reversed path and
  carries the suffix already passed.
\<close>

fun Ext_scan :: "string \<Rightarrow> string \<Rightarrow> string" where
  "Ext_scan [] suffix = []"
| "Ext_scan (c # front) suffix =
     (if c = CHR ''/'' then []
      else if c = CHR ''.'' then c # suffix
      else Ext_scan front (c # suffix))"

definition Ext :: "string \<Rightarrow> string" where
  "Ext path = Ext_scan (rev path) []"

text \<open>\<^verbatim>\<open>fmt.Sprintf(endpoint, i)\<close> for the constant format \<^verbatim>\<open>endpoint\<close>.\<close>

definition pageEndpoint :: "int \<Rightarrow> string" where
  "pageEndpoint i =
     ''http://app-homevision-staging.herokuapp.com/api_project/houses?page='' @ itoa i"

text \<open>
  \<^verbatim>\<open>fmt.Sprintf("id-%d-%s.%s", house.ID, strings.TrimRight(house.Address, "."),
  filepath.Ext(house.PhotoURL))\<close>, the same expression in both source files.
\<close>

definition fileName :: "house \<Rightarrow> string" where
  "fileName h =
     ''id-'' @ itoa (ID h) @ ''-'' @ TrimRight (Address h) ''.'' @ ''.'' @ Ext (PhotoURL h)"

section \<open>Record Producer: pipeHouses\<close>

text \<open>
  What the producer goroutine does to the channel \<^verbatim>\<open>out\<close>, in program order.
\<close>

datatype chan_op = Send house | Close

text \<open>
  \<^verbatim>\<open>json.NewDecoder(resp.Body).Decode(&houses)\<close> is a parameter: from the body, the
  error's message (\<open>Inl\<close>) or the decoded \<^verbatim>\<open>houses.Houses\<close> (\<open>Inr\<close>).
\<close>

type_synonym decoder = "string \<Rightarrow> string + house list"

definition error_requesting :: "string \<Rightarrow> string \<Rightarrow> string" where
  "error_requesting url err = ''error requesting '' @ url @ '': '' @ err"

definition error_decoding :: "string \<Rightarrow> string" where
  "error_decoding err = ''error decoding json response: '' @ err"

text \<open>
  The goroutine of \<^verbatim>\<open>pipeHouses\<close>, from page \<open>i\<close> on, having issued \<open>n\<close>
  requests: the channel operations it performs when every send is taken, how it ends,
  and the requests issued. A fresh \<^verbatim>\<open>houses\<close> variable is decoded into on every
  page. \<^verbatim>\<open>resp.Body\<close> on a nil \<^verbatim>\<open>resp\<close> would panic. The deferred
  \<^verbatim>\<open>resp.Body.Close()\<close> has no effect the model observes.
\<close>

function pipeHouses_loop ::
  "server \<Rightarrow> decoder \<Rightarrow> int \<Rightarrow> nat \<Rightarrow> chan_op list \<times> outcome \<times> nat" where
  "pipeHouses_loop srv decode i n =
     (if i \<le> 10 then
        (case requestWithRetry srv (pageEndpoint i) n of
           (Fatalf msg, n') \<Rightarrow> ([], Fatal msg, n')
         | (Returns resp (Some err), n') \<Rightarrow>
             ([], Fatal (error_requesting (pageEndpoint i) err), n')
         | (Returns None None, n') \<Rightarrow> ([], Panic, n')
         | (Returns (Some resp) None, n') \<Rightarrow>
             (case decode (Body resp) of
                Inl err \<Rightarrow> ([], Fatal (error_decoding err), n')
              | Inr hs \<Rightarrow>
                  (case pipeHouses_loop srv decode (i + 1) n' of
                     (ops, out, n'') \<Rightarrow> (map Send hs @ ops, out, n''))))
      else ([Close], Normal, n))"
  by pat_completeness auto
termination
  by (relation "measure (\<lambda>(srv, decode, i, n). nat (11 - i))") auto

declare pipeHouses_loop.simps [simp del]

definition pipeHouses :: "server \<Rightarrow> decoder \<Rightarrow> chan_op list \<times> outcome \<times> nat" where
  "pipeHouses srv decode = pipeHouses_loop srv decode 1 0"

section \<open>Asset Downloader Pool: downloadHouseImages\<close>

text \<open>
  What a worker changes: the files of the working directory (name to content) and the
  lines written to standard output, each kept as the logger's prefix and the formatted
  message (the time stamp between them is left out). \<open>tick\<close> counts the calls made
  to the outside so far; the outside may answer every call differently.
\<close>

record world =
  tick :: nat
  files :: "string \<rightharpoonup> string"
  stdout :: "(string \<times> string) list"

text \<open>
  The outside of a worker, each answer depending on the moment of the call:
  \<open>net\<close> answers \<^verbatim>\<open>client.Get\<close>; \<open>create_err\<close> is the error of
  \<^verbatim>\<open>os.Create(name)\<close>, if any; \<open>copy_err\<close> is the failure of
  \<^verbatim>\<open>io.Copy(file, resp.Body)\<close>, if any, as the number of bytes written before it and
  the error.
\<close>

record env =
  net :: server
  create_err :: "nat \<Rightarrow> string \<Rightarrow> string option"
  copy_err :: "nat \<Rightarrow> string \<Rightarrow> (nat \<times> string) option"

definition worker_Get :: "env \<Rightarrow> string \<Rightarrow> world \<Rightarrow> get_result \<times> world" where
  "worker_Get e url w =
     (case client_Get (net e) url (tick w) of (g, t) \<Rightarrow> (g, w\<lparr>tick := t\<rparr>))"

text \<open>\<^verbatim>\<open>os.Create\<close> truncates an existing file.\<close>

definition os_Create :: "env \<Rightarrow> string \<Rightarrow> world \<Rightarrow> string option \<times> world" where
  "os_Create e name w =
     (case create_err e (tick w) name of
        Some err \<Rightarrow> (Some err, w\<lparr>tick := Suc (tick w)\<rparr>)
      | None \<Rightarrow> (None, w\<lparr>tick := Suc (tick w), files := (files w)(name \<mapsto> [])\<rparr>))"

definition io_Copy :: "env \<Rightarrow> string \<Rightarrow> string \<Rightarrow> world \<Rightarrow> string option \<times> world" where
  "io_Copy e name body w =
     (case copy_err e (tick w) name of
        Some (k, err) \<Rightarrow>
          (Some err, w\<lparr>tick := Suc (tick w), files := (files w)(name \<mapsto> take k body)\<rparr>)
      | None \<Rightarrow> (None, w\<lparr>tick := Suc (tick w), files := (files w)(name \<mapsto> body)\<rparr>))"

text \<open>
  \<^verbatim>\<open>logger.Printf\<close> of the logger \<^verbatim>\<open>log.New(os.Stdout, "\n"+fileName, log.Ltime)\<close>.
\<close>

definition logger_Printf :: "string \<Rightarrow> string \<Rightarrow> world \<Rightarrow> world" where
  "logger_Printf name msg w = w\<lparr>stdout := stdout w @ [(CHR 0x0A # name, msg)]\<rparr>"

text \<open>
  The statements run for one house: the body of \<^verbatim>\<open>downloadHouseImage\<close> in
  \<^verbatim>\<open>main.go\<close> and, word for word, of the \<^verbatim>\<open>if house, ok := <-in; ok\<close> branch in the
  pipelined file. The result is \<open>EarlyReturn\<close> when one of the three \<^verbatim>\<open>return\<close>
  statements is reached and \<open>Normal\<close> when the end of the block is. The deferred
  \<^verbatim>\<open>resp.Body.Close()\<close> and \<^verbatim>\<open>file.Close()\<close> have no effect the model observes.
\<close>

definition downloadHouseImage :: "env \<Rightarrow> house \<Rightarrow> world \<Rightarrow> outcome \<times> world" where
  "downloadHouseImage e h w =
     (case worker_Get e (PhotoURL h) w of
        (Err resp err, w1) \<Rightarrow>
          (EarlyReturn, logger_Printf (fileName h) (''error getting photo: '' @ err) w1)
      | (Resp resp, w1) \<Rightarrow>
          (case os_Create e (fileName h) w1 of
             (Some err, w2) \<Rightarrow>
               (EarlyReturn, logger_Printf (fileName h) (''could not create file: '' @ err) w2)
           | (None, w2) \<Rightarrow>
               (case io_Copy e (fileName h) (Body resp) w2 of
                  (Some err, w3) \<Rightarrow>
                    (EarlyReturn,
                     logger_Printf (fileName h) (''error copying file contents: '' @ err) w3)
                | (None, w3) \<Rightarrow> (Normal, w3))))"

text \<open>
  One run of the worker \<^verbatim>\<open>downloadHouseImages\<close>: the world it leaves, the houses it
  received, and whether it called \<^verbatim>\<open>wg.Done()\<close>.
\<close>

record worker_run =
  left :: world
  received :: "house list"
  wg_Done :: bool

text \<open>
  The worker's \<^verbatim>\<open>for\<close> loop. The list is what the channel would hand this worker,
  receive after receive, before it reports closed. A \<^verbatim>\<open>return\<close> inside the loop
  leaves the function, so neither the next receive nor the \<^verbatim>\<open>wg.Done()\<close> after the
  loop is reached; \<^verbatim>\<open>break\<close> on the closed channel reaches \<^verbatim>\<open>wg.Done()\<close>.
\<close>

fun downloadHouseImages :: "env \<Rightarrow> house list \<Rightarrow> world \<Rightarrow> worker_run" where
  "downloadHouseImages e [] w = \<lparr>left = w, received = [], wg_Done = True\<rparr>"
| "downloadHouseImages e (h # hs) w =
     (case downloadHouseImage e h w of
        (Normal, w') \<Rightarrow>
          (case downloadHouseImages e hs w' of r \<Rightarrow> r\<lparr>received := h # received r\<rparr>)
      | (out, w') \<Rightarrow> \<lparr>left = w', received = [h], wg_Done = False\<rparr>)"

section \<open>Coordinator and the pipeline as a transition system\<close>

text \<open>
  A worker goroutine is at its receive (\<open>Receiving\<close>), has left by a \<^verbatim>\<open>return\<close>
  (\<open>Returned\<close>), or has left through \<^verbatim>\<open>wg.Done()\<close> (\<open>Released\<close>). \<open>handled\<close>
  lists what it received, each house with its position in the producer's sends.
\<close>

datatype wstatus = Receiving | Returned | Released

record worker =
  status :: wstatus
  handled :: "(nat \<times> house) list"

text \<open>
  The pipeline: the channel operations the producer has still to perform, the houses
  already sent, whether the channel is closed, the workers, the counter of \<^verbatim>\<open>wg\<close>,
  and the world the workers share.
\<close>

record pipeline =
  todo :: "chan_op list"
  sent :: "house list"
  closed :: bool
  workers :: "worker list"
  wg :: int
  shared :: world

text \<open>
  \<^verbatim>\<open>main\<close> after its loop: \<open>maxGoroutines\<close> workers started, \<^verbatim>\<open>wg.Add(1)\<close> called
  for each, the producer about to perform \<open>ops\<close>.
\<close>

definition main_started :: "chan_op list \<Rightarrow> world \<Rightarrow> pipeline" where
  "main_started ops w =
     \<lparr>todo = ops, sent = [], closed = False,
      workers = replicate maxGoroutines \<lparr>status = Receiving, handled = []\<rparr>,
      wg = int maxGoroutines, shared = w\<rparr>"

text \<open>\<^verbatim>\<open>wg.Wait()\<close> returns when the counter is zero.\<close>

definition Wait_returns :: "pipeline \<Rightarrow> bool" where
  "Wait_returns p = (wg p = 0)"

text \<open>
  The steps of the pipeline. The channel is unbuffered: a send completes by handing the
  house to one worker that is at its receive (\<open>handoff\<close>); the worker then runs the
  loop body on it, here in one step. \<open>close\<close> is the producer's \<^verbatim>\<open>close(out)\<close>.
  A worker at its receive on the closed channel breaks out of its loop and calls
  \<^verbatim>\<open>wg.Done()\<close> (\<open>release\<close>).
\<close>

inductive step :: "env \<Rightarrow> pipeline \<Rightarrow> pipeline \<Rightarrow> bool" for e :: env where
  handoff:
    "todo p = Send h # rest \<Longrightarrow> i < length (workers p) \<Longrightarrow>
     status (workers p ! i) = Receiving \<Longrightarrow>
     downloadHouseImage e h (shared p) = (out, w') \<Longrightarrow>
     step e p
       (p\<lparr>todo := rest, sent := sent p @ [h],
          workers := (workers p)
            [i := \<lparr>status = (if out = Normal then Receiving else Returned),
                   handled = handled (workers p ! i) @ [(length (sent p), h)]\<rparr>],
          shared := w'\<rparr>)"
| close:
    "todo p = Close # rest \<Longrightarrow> step e p (p\<lparr>todo := rest, closed := True\<rparr>)"
| release:
    "closed p \<Longrightarrow> i < length (workers p) \<Longrightarrow> status (workers p ! i) = Receiving \<Longrightarrow>
     step e p
       (p\<lparr>workers := (workers p)[i := (workers p ! i)\<lparr>status := Released\<rparr>],
          wg := wg p - 1\<rparr>)"

text \<open>The houses among channel operations, in order.\<close>

fun sends :: "chan_op list \<Rightarrow> house list" where
  "sends [] = []"
| "sends (Send h # ops) = h # sends ops"
| "sends (Close # ops) = sends ops"

text \<open>The workers that have not called \<^verbatim>\<open>wg.Done()\<close>.\<close>

definition unreleased :: "worker list \<Rightarrow> nat" where
  "unreleased ws = length (filter (\<lambda>x. status x \<noteq> Released) ws)"

text \<open>
  The three fatal conditions of a page fetch that starts at request \<open>m\<close>, read off
  the spec's taxonomy as conditions on what the server answers and what the decoder
  makes of the body: every one of the 20 requests is answered with a status other than
  200; a request within the budget, after only such answers, returns an error; a request
  within the budget, after only such answers, is answered 200 with a body that does not
  decode.
\<close>

definition retry_budget_exhausted :: "server \<Rightarrow> string \<Rightarrow> nat \<Rightarrow> bool" where
  "retry_budget_exhausted srv url m = list_all (\<lambda>k. non_ok (srv (m + k) url)) [0..<maxTries]"

definition transport_error :: "server \<Rightarrow> string \<Rightarrow> nat \<Rightarrow> string \<Rightarrow> bool" where
  "transport_error srv url m err =
     list_ex (\<lambda>K. list_all (\<lambda>k. non_ok (srv (m + k) url)) [0..<K] \<and>
                 (case srv (m + K) url of Err resp e \<Rightarrow> e = err | Resp r \<Rightarrow> False))
       [0..<maxTries]"

definition decode_failure :: "server \<Rightarrow> decoder \<Rightarrow> string \<Rightarrow> nat \<Rightarrow> string \<Rightarrow> bool" where
  "decode_failure srv decode url m err =
     list_ex (\<lambda>K. list_all (\<lambda>k. non_ok (srv (m + k) url)) [0..<K] \<and>
                 (case srv (m + K) url of
                    Err resp e \<Rightarrow> False
                  | Resp r \<Rightarrow> StatusCode r = StatusOK \<and> decode (Body r) = Inl err))
       [0..<maxTries]"

text \<open>
  A page fetch that starts at request \<open>m\<close> meets one of the three fatal conditions, and
  \<open>out\<close> is the process ending in the message the program prints for it.
\<close>

definition fatal_cause :: "server \<Rightarrow> decoder \<Rightarrow> string \<Rightarrow> nat \<Rightarrow> outcome \<Rightarrow> bool" where
  "fatal_cause srv decode url m out =
     (retry_budget_exhausted srv url m \<and> out = Fatal (consistently_failing url) \<or>
      (\<exists>err. transport_error srv url m err \<and> out = Fatal (error_requesting url err)) \<or>
      (\<exists>err. decode_failure srv decode url m err \<and> out = Fatal (error_decoding err)))"

text \<open>
  The iterations the producer's loop begins, each as the page and the number of requests
  issued before it. The loop goes on to the next page only when the fetch returned a
  response with a nil error and the body decoded; otherwise the process has ended.
\<close>

function page_starts :: "server \<Rightarrow> decoder \<Rightarrow> int \<Rightarrow> nat \<Rightarrow> (int \<times> nat) list" where
  "page_starts srv decode i n =
     (if i \<le> 10 then
        (i, n) #
        (case requestWithRetry srv (pageEndpoint i) n of
           (Returns (Some resp) None, n') \<Rightarrow>
             (case decode (Body resp) of
                Inl err \<Rightarrow> []
              | Inr hs \<Rightarrow> page_starts srv decode (i + 1) n')
         | (res, n') \<Rightarrow> [])
      else [])"
  by pat_completeness auto
termination
  by (relation "measure (\<lambda>(srv, decode, i, n). nat (11 - i))") auto

declare page_starts.simps [simp del]

text \<open>
  The handoff step as a function of the worker chosen: the state after worker \<open>i\<close> has
  taken the next house, or the state as it is when that handoff is not possible.
\<close>

definition deliver :: "env \<Rightarrow> nat \<Rightarrow> pipeline \<Rightarrow> pipeline" where
  "deliver e i p =
     (case todo p of
        Send h # rest \<Rightarrow>
          (if i < length (workers p) \<and> status (workers p ! i) = Receiving then
             (case downloadHouseImage e h (shared p) of
                (out, w') \<Rightarrow>
                  p\<lparr>todo := rest, sent := sent p @ [h],
                    workers := (workers p)
                      [i := \<lparr>status = (if out = Normal then Receiving else Returned),
                             handled = handled (workers p ! i) @ [(length (sent p), h)]\<rparr>],
                    shared := w'\<rparr>)
           else p)
      | ops \<Rightarrow> p)"

text \<open>
  Whether the pipeline can take a step: the producer can close; a send needs a worker at
  its receive; with nothing left to do, only a worker at its receive on the closed
  channel can move.
\<close>

definition can_step :: "pipeline \<Rightarrow> bool" where
  "can_step p =
     (case todo p of
        [] \<Rightarrow> closed p \<and> list_ex (\<lambda>x. status x = Receiving) (workers p)
      | Send h # rest \<Rightarrow> list_ex (\<lambda>x. status x = Receiving) (workers p)
      | Close # rest \<Rightarrow> True)"

section \<open>Concrete inputs\<close>

text \<open>
  Servers for the page fetcher: one that answers 503 to the first \<open>K\<close> requests and
  200 from then on, one that always answers 500, one that answers 503 to the first
  \<open>K\<close> requests and then fails at the transport level, and one whose redirects
  exceed the client's limit, so that \<^verbatim>\<open>client.Get\<close> returns the last response
  together with an error.
\<close>

definition flaky_server :: "nat \<Rightarrow> server" where
  "flaky_server K n url = Resp \<lparr>StatusCode = (if n < K then 503 else 200), Body = ''{}''\<rparr>"

definition failing_server :: server where
  "failing_server n url = Resp \<lparr>StatusCode = 500, Body = []\<rparr>"

definition unreachable_server :: "nat \<Rightarrow> server" where
  "unreachable_server K n url =
     (if n < K then Resp \<lparr>StatusCode = 503, Body = []\<rparr> else Err None ''connection refused'')"

definition redirecting_server :: server where
  "redirecting_server n url =
     Err (Some \<lparr>StatusCode = 302, Body = []\<rparr>) ''stopped after 10 redirects''"

text \<open>
  Two houses, the empty world, and four outsides of a worker: one where every request
  fails at the transport level, one where every file creation fails, one where every
  copy fails after two bytes, and one where nothing fails.
\<close>

definition elm_house :: house where
  "elm_house = \<lparr>ID = 7, Address = ''12 Elm St.'', Homeowner = ''Ann'', Price = 100,
     PhotoURL = ''http://img.test/photos/elm.jpg''\<rparr>"

definition oak_house :: house where
  "oak_house = \<lparr>ID = 8, Address = ''3 Oak Rd'', Homeowner = ''Bob'', Price = 200,
     PhotoURL = ''http://img.test/photos/oak.png''\<rparr>"

definition world0 :: world where
  "world0 = \<lparr>tick = 0, files = Map.empty, stdout = []\<rparr>"

definition image_server :: server where
  "image_server n url = Resp \<lparr>StatusCode = 200, Body = ''img''\<rparr>"

definition offline_env :: env where
  "offline_env = \<lparr>net = unreachable_server 0, create_err = (\<lambda>t name. None),
     copy_err = (\<lambda>t name. None)\<rparr>"

definition readonly_env :: env where
  "readonly_env = \<lparr>net = image_server, create_err = (\<lambda>t name. Some ''permission denied''),
     copy_err = (\<lambda>t name. None)\<rparr>"

definition broken_copy_env :: env where
  "broken_copy_env = \<lparr>net = image_server, create_err = (\<lambda>t name. None),
     copy_err = (\<lambda>t name. Some (2, ''unexpected EOF''))\<rparr>"

definition healthy_env :: env where
  "healthy_env = \<lparr>net = image_server, create_err = (\<lambda>t name. None),
     copy_err = (\<lambda>t name. None)\<rparr>"

text \<open>
  A pipeline whose producer sends the two houses and closes, and its state after worker
  3 took the first house, with the way the loop body ended and the world it left.
\<close>

definition two_houses :: pipeline where
  "two_houses = main_started [Send elm_house, Send oak_house, Close] world0"

definition two_houses_taken :: "outcome \<Rightarrow> world \<Rightarrow> pipeline" where
  "two_houses_taken out w' =
     two_houses\<lparr>todo := [Send oak_house, Close], sent := sent two_houses @ [elm_house],
       workers := (workers two_houses)
         [3 := \<lparr>status = (if out = Normal then Receiving else Returned),
                handled = handled (workers two_houses ! 3) @ [(length (sent two_houses), elm_house)]\<rparr>],
       shared := w'\<rparr>"

text \<open>
  A page server that answers 503 to every even request and 200, with the URL as the
  body, to every odd one; a decoder that makes one house of a body, and one that fails.
\<close>

definition page_server :: server where
  "page_server n url = Resp \<lparr>StatusCode = (if even n then 503 else 200), Body = url\<rparr>"

definition house_of :: "string \<Rightarrow> house" where
  "house_of body = \<lparr>ID = 1, Address = body, Homeowner = [], Price = 0, PhotoURL = []\<rparr>"

definition one_house_decoder :: decoder where
  "one_house_decoder body = Inr [house_of body]"

definition failing_decoder :: decoder where
  "failing_decoder body = Inl ''unexpected end of JSON input''"

text \<open>
  A server that answers 200, with the URL as the body, to the first \<open>K\<close> requests and
  fails at the transport level from then on; a decoder that makes three houses of a body.
\<close>

definition down_after :: "nat \<Rightarrow> server" where
  "down_after K n url =
     (if n < K then Resp \<lparr>StatusCode = 200, Body = url\<rparr> else Err None ''connection refused'')"

definition three_house_decoder :: decoder where
  "three_house_decoder body = Inr [house_of body, house_of body, house_of body]"

text \<open>
  The pipeline of a producer that has thirty houses to send, and its state after each of
  the twenty workers has taken one house where every photo request fails.
\<close>

definition thirty_houses :: pipeline where
  "thirty_houses = main_started (fst (pipeHouses page_server three_house_decoder)) world0"

definition thirty_houses_stalled :: pipeline where
  "thirty_houses_stalled =
     foldl (\<lambda>p i. deliver offline_env i p) thirty_houses [0..<maxGoroutines]"

section \<open>The retry loop\<close>

text \<open>
  \<open>K\<close> answers that are responses with a status other than 200 take the loop \<open>K\<close>
  iterations further, one request each.
\<close>

lemma requestWithRetry_loop_skip:
  "tries + K \<le> maxTries \<Longrightarrow> (\<forall>i<K. non_ok (srv (n + i) url)) \<Longrightarrow>
   requestWithRetry_loop srv url tries n = requestWithRetry_loop srv url (tries + K) (n + K)"
proof (induction K arbitrary: tries n)
  case 0
  then show ?case by simp
next
  case (Suc K)
  from Suc.prems have first: "non_ok (srv n url)" by (metis add.right_neutral zero_less_Suc)
  from Suc.prems have lt: "tries < maxTries" by simp
  have rest: "\<forall>i<K. non_ok (srv (Suc n + i) url)"
  proof (intro allI impI)
    fix i assume "i < K"
    then have "Suc i < Suc K" by simp
    with Suc.prems(2) have "non_ok (srv (n + Suc i) url)" by blast
    then show "non_ok (srv (Suc n + i) url)" by simp
  qed
  from Suc.prems have bound: "Suc tries + K \<le> maxTries" by simp
  from first lt have "requestWithRetry_loop srv url tries n = requestWithRetry_loop srv url (Suc tries) (Suc n)"
    by (subst requestWithRetry_loop.simps) (simp add: client_Get_def non_ok_def split: get_result.splits)
  also have "\<dots> = requestWithRetry_loop srv url (Suc tries + K) (Suc n + K)"
    using Suc.IH [OF bound rest] .
  finally show ?case by simp
qed

text \<open>
  What the loop returns, read off its last request: with a nil error, a response of
  status 200; with an error, exactly the response pointer that came with the error.
\<close>

lemma requestWithRetry_loop_returns:
  "requestWithRetry_loop srv url tries n = (Returns resp err, n') \<Longrightarrow>
   n < n' \<and>
   (case err of
      None \<Rightarrow> \<exists>r. resp = Some r \<and> StatusCode r = StatusOK \<and> srv (n' - 1) url = Resp r
    | Some e \<Rightarrow> srv (n' - 1) url = Err resp e)"
proof (induction srv url tries n rule: requestWithRetry_loop.induct)
  case (1 srv url tries n)
  show ?case
  proof (cases "tries \<ge> maxTries")
    case True
    with "1.prems" show ?thesis by (subst (asm) requestWithRetry_loop.simps) simp
  next
    case False
    show ?thesis
    proof (cases "srv n url")
      case (Err r e)
      with False "1.prems" show ?thesis
        by (subst (asm) requestWithRetry_loop.simps) (auto simp: client_Get_def)
    next
      case (Resp r)
      show ?thesis
      proof (cases "StatusCode r = StatusOK")
        case True
        with False Resp "1.prems" show ?thesis
          by (subst (asm) requestWithRetry_loop.simps) (auto simp: client_Get_def)
      next
        case ne: False
        from False Resp ne "1.prems"
        have rec: "requestWithRetry_loop srv url (tries + 1) (Suc n) = (Returns resp err, n')"
          by (subst (asm) requestWithRetry_loop.simps) (simp add: client_Get_def)
        have "Suc n < n' \<and>
          (case err of
             None \<Rightarrow> \<exists>r. resp = Some r \<and> StatusCode r = StatusOK \<and> srv (n' - 1) url = Resp r
           | Some e \<Rightarrow> srv (n' - 1) url = Err resp e)"
          using "1.IH" [OF False _ _ ne rec] Resp by (simp add: client_Get_def)
        then show ?thesis by simp
      qed
    qed
  qed
qed

text \<open>
  The cause of every way the loop can end, in terms of the server's answers from request
  \<open>n\<close> on.
\<close>

lemma requestWithRetry_loop_cause:
  "requestWithRetry_loop srv url tries n = (res, n') \<Longrightarrow>
   (case res of
      Fatalf msg \<Rightarrow> msg = consistently_failing url \<and> n' = n + (maxTries - tries) \<and>
        (\<forall>k. tries + k < maxTries \<longrightarrow> non_ok (srv (n + k) url))
    | Returns resp err \<Rightarrow>
        (\<exists>K. tries + K < maxTries \<and> (\<forall>k<K. non_ok (srv (n + k) url)) \<and> n' = n + K + 1 \<and>
           (case err of
              Some e \<Rightarrow> srv (n + K) url = Err resp e
            | None \<Rightarrow> \<exists>r. resp = Some r \<and> srv (n + K) url = Resp r \<and> StatusCode r = StatusOK)))"
proof (induction srv url tries n rule: requestWithRetry_loop.induct)
  case (1 srv url tries n)
  show ?case
  proof (cases "tries \<ge> maxTries")
    case True
    with "1.prems" show ?thesis by (subst (asm) requestWithRetry_loop.simps) auto
  next
    case False
    show ?thesis
    proof (cases "srv n url")
      case (Err r e)
      with False "1.prems" have "res = Returns r (Some e)" "n' = n + 0 + 1"
        by (subst (asm) requestWithRetry_loop.simps, simp add: client_Get_def)+
      with False Err show ?thesis by (auto intro!: exI [of _ 0])
    next
      case (Resp r)
      show ?thesis
      proof (cases "StatusCode r = StatusOK")
        case True
        with False Resp "1.prems" have "res = Returns (Some r) None" "n' = n + 0 + 1"
          by (subst (asm) requestWithRetry_loop.simps, simp add: client_Get_def)+
        with False Resp True show ?thesis by (auto intro!: exI [of _ 0])
      next
        case ne: False
        from False Resp ne "1.prems"
        have rec: "requestWithRetry_loop srv url (tries + 1) (Suc n) = (res, n')"
          by (subst (asm) requestWithRetry_loop.simps) (simp add: client_Get_def)
        have cur: "non_ok (srv n url)" using Resp ne by (simp add: non_ok_def)
        have IH: "(case res of
            Fatalf msg \<Rightarrow> msg = consistently_failing url \<and> n' = Suc n + (maxTries - (tries + 1)) \<and>
              (\<forall>k. tries + 1 + k < maxTries \<longrightarrow> non_ok (srv (Suc n + k) url))
          | Returns resp err \<Rightarrow>
              (\<exists>K. tries + 1 + K < maxTries \<and> (\<forall>k<K. non_ok (srv (Suc n + k) url)) \<and>
                 n' = Suc n + K + 1 \<and>
                 (case err of
                    Some e \<Rightarrow> srv (Suc n + K) url = Err resp e
                  | None \<Rightarrow> \<exists>r. resp = Some r \<and> srv (Suc n + K) url = Resp r \<and>
                      StatusCode r = StatusOK)))"
          using "1.IH" [OF False _ _ ne rec] Resp by (simp add: client_Get_def)
        show ?thesis
        proof (cases res)
          case (Fatalf msg)
          with IH have m: "msg = consistently_failing url"
            and n': "n' = Suc n + (maxTries - (tries + 1))"
            and all: "\<And>k. tries + 1 + k < maxTries \<Longrightarrow> non_ok (srv (Suc n + k) url)"
            by simp_all
          have "\<And>k. tries + k < maxTries \<Longrightarrow> non_ok (srv (n + k) url)"
          proof -
            fix k assume k: "tries + k < maxTries"
            show "non_ok (srv (n + k) url)"
            proof (cases k)
              case 0 with cur show ?thesis by simp
            next
              case (Suc k') with k all [of k'] show ?thesis by simp
            qed
          qed
          with Fatalf m n' False show ?thesis by auto
        next
          case (Returns resp err)
          with IH obtain K where K: "tries + 1 + K < maxTries"
            and all: "\<And>k. k < K \<Longrightarrow> non_ok (srv (Suc n + k) url)"
            and n': "n' = Suc n + K + 1"
            and last: "(case err of
                    Some e \<Rightarrow> srv (Suc n + K) url = Err resp e
                  | None \<Rightarrow> \<exists>r. resp = Some r \<and> srv (Suc n + K) url = Resp r \<and>
                      StatusCode r = StatusOK)"
            by auto
          have all': "\<forall>k<Suc K. non_ok (srv (n + k) url)"
          proof (intro allI impI)
            fix k assume k: "k < Suc K"
            show "non_ok (srv (n + k) url)"
            proof (cases k)
              case 0 with cur show ?thesis by simp
            next
              case (Suc k') with k all [of k'] show ?thesis by simp
            qed
          qed
          have "tries + Suc K < maxTries \<and> (\<forall>k<Suc K. non_ok (srv (n + k) url)) \<and>
             n' = n + Suc K + 1 \<and>
             (case err of
                Some e \<Rightarrow> srv (n + Suc K) url = Err resp e
              | None \<Rightarrow> \<exists>r. resp = Some r \<and> srv (n + Suc K) url = Resp r \<and> StatusCode r = StatusOK)"
            using K all' n' last by (cases err) simp_all
          then show ?thesis unfolding Returns by (simp only: fetched.case) blast
        qed
      qed
    qed
  qed
qed

lemma list_all_upt: "list_all P [0..<K] = (\<forall>k<K. P k)"
  by (auto simp: list_all_iff)

lemma list_ex_upt: "list_ex P [0..<K] = (\<exists>k<K. P k)"
  by (auto simp: list_ex_iff)

lemma requestWithRetry_at:
  "K \<le> maxTries \<Longrightarrow> \<forall>k<K. non_ok (srv (n + k) url) \<Longrightarrow>
   requestWithRetry srv url n = requestWithRetry_loop srv url K (n + K)"
  using requestWithRetry_loop_skip [of 0 K srv n url] by (simp add: requestWithRetry_def)

text \<open>
  C4. If the first \<open>K\<close> requests, \<open>K < 20\<close>, are answered by responses whose status is
  not 200 and request \<open>K + 1\<close> is answered 200 OK, \<^verbatim>\<open>requestWithRetry\<close> returns
  that response with a nil error, having issued exactly \<open>K + 1\<close> requests.
\<close>

theorem requestWithRetry_succeeds_after_K:
  assumes "K < maxTries"
    and "\<forall>i<K. non_ok (srv (n + i) url)"
    and "srv (n + K) url = Resp r"
    and "StatusCode r = StatusOK"
  shows "requestWithRetry srv url n = (Returns (Some r) None, n + K + 1)"
proof -
  have "requestWithRetry srv url n = requestWithRetry_loop srv url K (n + K)"
    using assms(1,2) requestWithRetry_loop_skip [of 0 K srv n url]
    by (simp add: requestWithRetry_def)
  also have "\<dots> = (Returns (Some r) None, n + K + 1)"
    using assms(1,3,4)
    by (subst requestWithRetry_loop.simps) (simp add: client_Get_def)
  finally show ?thesis .
qed

theorem requestWithRetry_succeeds_after_K_witness:
  "requestWithRetry (flaky_server 3) ''http://h/p'' 0 =
     (Returns (Some \<lparr>StatusCode = 200, Body = ''{}''\<rparr>) None, 4)"
  using requestWithRetry_succeeds_after_K
    [of 3 "flaky_server 3" 0 "''http://h/p''" "\<lparr>StatusCode = 200, Body = ''{}''\<rparr>"]
  by (simp add: flaky_server_def non_ok_def maxTries_def StatusOK_def)

text \<open>
  C5. If every one of the first 20 requests is answered by a response whose status is
  not 200, \<^verbatim>\<open>requestWithRetry\<close> ends the process through \<^verbatim>\<open>log.Fatalf\<close> with the
  message naming the URL, after exactly 20 requests: not earlier, and with no 21st
  request.
\<close>

theorem requestWithRetry_fatal_at_maxTries:
  assumes "\<forall>i<maxTries. non_ok (srv (n + i) url)"
  shows "requestWithRetry srv url n = (Fatalf (consistently_failing url), n + 20)"
proof -
  have "requestWithRetry srv url n = requestWithRetry_loop srv url maxTries (n + maxTries)"
    using assms requestWithRetry_loop_skip [of 0 maxTries srv n url]
    by (simp add: requestWithRetry_def)
  also have "\<dots> = (Fatalf (consistently_failing url), n + 20)"
    by (subst requestWithRetry_loop.simps) (simp add: maxTries_def)
  finally show ?thesis .
qed

theorem requestWithRetry_fatal_at_maxTries_witness:
  "requestWithRetry failing_server ''http://h/p'' 0 =
     (Fatalf ''endpoint http://h/p was consistently failing'', 20)"
  using requestWithRetry_fatal_at_maxTries [of failing_server 0 "''http://h/p''"]
  by (simp add: failing_server_def non_ok_def StatusOK_def consistently_failing_def)

text \<open>
  C6. If, after \<open>K < 20\<close> answers of status other than 200, \<^verbatim>\<open>client.Get\<close> returns
  an error, \<^verbatim>\<open>requestWithRetry\<close> returns that error (and the response pointer that
  came with it, nil for a transport error) right away: the failed request is its last,
  \<open>K + 1\<close> in all, one in all when the first request fails.
\<close>

theorem requestWithRetry_transport_error:
  assumes "K < maxTries"
    and "\<forall>i<K. non_ok (srv (n + i) url)"
    and "srv (n + K) url = Err resp err"
  shows "requestWithRetry srv url n = (Returns resp (Some err), n + K + 1)"
proof -
  have "requestWithRetry srv url n = requestWithRetry_loop srv url K (n + K)"
    using assms(1,2) requestWithRetry_loop_skip [of 0 K srv n url]
    by (simp add: requestWithRetry_def)
  also have "\<dots> = (Returns resp (Some err), n + K + 1)"
    using assms(1,3)
    by (subst requestWithRetry_loop.simps) (simp add: client_Get_def)
  finally show ?thesis .
qed

theorem requestWithRetry_transport_error_witness:
  "requestWithRetry (unreachable_server 0) ''http://h/p'' 0 =
     (Returns None (Some ''connection refused''), 1) \<and>
   requestWithRetry (unreachable_server 2) ''http://h/p'' 0 =
     (Returns None (Some ''connection refused''), 3)"
  using requestWithRetry_transport_error
      [of 0 "unreachable_server 0" 0 "''http://h/p''" None "''connection refused''"]
    requestWithRetry_transport_error
      [of 2 "unreachable_server 2" 0 "''http://h/p''" None "''connection refused''"]
  by (simp add: unreachable_server_def non_ok_def maxTries_def StatusOK_def)

text \<open>
  C10, as stated, fails for an error that comes with a response: when the redirect
  limit is exceeded, \<^verbatim>\<open>client.Get\<close> returns the last response and an error, and
  \<^verbatim>\<open>requestWithRetry\<close> hands both to its caller.
\<close>

theorem requestWithRetry_error_with_response:
  "requestWithRetry redirecting_server ''http://h/p'' 0 =
     (Returns (Some \<lparr>StatusCode = 302, Body = []\<rparr>) (Some ''stopped after 10 redirects''), 1)"
  by (simp add: requestWithRetry_def requestWithRetry_loop.simps client_Get_def
      redirecting_server_def maxTries_def)

text \<open>
  C10, amended. Whenever \<^verbatim>\<open>requestWithRetry\<close> returns, it has issued at least one
  request; with a nil error the response is non-nil, has status 200 and is the answer
  to the last request; with a non-nil error the response pointer is the one the last
  \<^verbatim>\<open>client.Get\<close> returned along with that error (nil when the client returned none).
\<close>

theorem requestWithRetry_returns:
  assumes "requestWithRetry srv url n = (Returns resp err, n')"
  shows "n < n' \<and>
    (case err of
       None \<Rightarrow> \<exists>r. resp = Some r \<and> StatusCode r = StatusOK \<and> srv (n' - 1) url = Resp r
     | Some e \<Rightarrow> srv (n' - 1) url = Err resp e)"
  using assms requestWithRetry_loop_returns [of srv url 0 n resp err n']
  by (simp add: requestWithRetry_def)

theorem requestWithRetry_returns_witness:
  "requestWithRetry (flaky_server 3) ''http://h/p'' 0 =
     (Returns (Some \<lparr>StatusCode = 200, Body = ''{}''\<rparr>) None, 4) \<and>
   flaky_server 3 (4 - 1) ''http://h/p'' = Resp \<lparr>StatusCode = 200, Body = ''{}''\<rparr> \<and>
   requestWithRetry redirecting_server ''http://h/p'' 0 =
     (Returns (Some \<lparr>StatusCode = 302, Body = []\<rparr>) (Some ''stopped after 10 redirects''), 1) \<and>
   redirecting_server (1 - 1) ''http://h/p'' =
     Err (Some \<lparr>StatusCode = 302, Body = []\<rparr>) ''stopped after 10 redirects''"
proof -
  have a: "requestWithRetry (flaky_server 3) ''http://h/p'' 0 =
     (Returns (Some \<lparr>StatusCode = 200, Body = ''{}''\<rparr>) None, 4)"
    by (simp add: requestWithRetry_def requestWithRetry_loop.simps client_Get_def
      flaky_server_def maxTries_def StatusOK_def)
  have b: "requestWithRetry redirecting_server ''http://h/p'' 0 =
     (Returns (Some \<lparr>StatusCode = 302, Body = []\<rparr>) (Some ''stopped after 10 redirects''), 1)"
    by (simp add: requestWithRetry_def requestWithRetry_loop.simps client_Get_def
      redirecting_server_def maxTries_def)
  from requestWithRetry_returns [OF a] requestWithRetry_returns [OF b] a b
  show ?thesis by simp
qed

section \<open>The producer\<close>

text \<open>
  A run of the producer's loop that ends normally sent one decoded page after the other,
  each the body of a 200 response to that page's URL, and closed the channel last.
\<close>

lemma pipeHouses_loop_Normal:
  "pipeHouses_loop srv decode i n = (ops, Normal, n') \<Longrightarrow>
   \<exists>pages ms. length pages = nat (11 - i) \<and> length ms = length pages \<and>
     sorted_wrt (<) ms \<and> ops = map Send (concat pages) @ [Close] \<and> n \<le> n' \<and>
     (\<forall>j<length pages. n \<le> ms ! j \<and> ms ! j < n' \<and>
        (\<exists>r. srv (ms ! j) (pageEndpoint (i + int j)) = Resp r \<and> StatusCode r = StatusOK \<and>
             decode (Body r) = Inr (pages ! j)))"
proof (induction srv decode i n arbitrary: ops rule: pipeHouses_loop.induct)
  case (1 srv decode i n)
  show ?case
  proof (cases "i \<le> 10")
    case False
    with "1.prems" have "ops = [Close]" "n' = n"
      by (simp_all add: pipeHouses_loop.simps)
    with False show ?thesis by simp
  next
    case True
    from True "1.prems" obtain r n1 hs ops' where
      fetch: "requestWithRetry srv (pageEndpoint i) n = (Returns (Some r) None, n1)"
      and dec: "decode (Body r) = Inr hs"
      and rest: "pipeHouses_loop srv decode (i + 1) n1 = (ops', Normal, n')"
      and ops: "ops = map Send hs @ ops'"
      by (subst (asm) pipeHouses_loop.simps)
        (auto split: prod.splits fetched.splits option.splits sum.splits)
    from requestWithRetry_loop_returns [of srv "pageEndpoint i" 0 n "Some r" None n1] fetch
    have lt: "n < n1" and ok: "StatusCode r = StatusOK"
      and got: "srv (n1 - 1) (pageEndpoint i) = Resp r"
      by (simp_all add: requestWithRetry_def)
    from "1.IH" [OF True fetch [symmetric] refl refl refl dec rest]
    obtain pages ms where
      len: "length pages = nat (11 - (i + 1))" and lms: "length ms = length pages"
      and srt: "sorted_wrt (<) ms" and ops': "ops' = map Send (concat pages) @ [Close]"
      and le: "n1 \<le> n'"
      and each: "\<And>j. j < length pages \<Longrightarrow> n1 \<le> ms ! j \<and> ms ! j < n' \<and>
          (\<exists>r. srv (ms ! j) (pageEndpoint (i + 1 + int j)) = Resp r \<and>
               StatusCode r = StatusOK \<and> decode (Body r) = Inr (pages ! j))"
      by blast
    let ?pages = "hs # pages" and ?ms = "(n1 - 1) # ms"
    have a: "length ?pages = nat (11 - i)" using len True by simp
    have b: "length ?ms = length ?pages" using lms by simp
    have "\<And>m. m \<in> set ms \<Longrightarrow> n1 - 1 < m"
    proof -
      fix m assume "m \<in> set ms"
      then obtain j where "j < length ms" "ms ! j = m" by (auto simp: in_set_conv_nth)
      with each [of j] lms lt show "n1 - 1 < m" by auto
    qed
    with srt have c: "sorted_wrt (<) ?ms" by simp
    have d: "ops = map Send (concat ?pages) @ [Close]" using ops ops' by simp
    have e: "n \<le> n'" using lt le by simp
    have f: "\<forall>j<length ?pages. n \<le> ?ms ! j \<and> ?ms ! j < n' \<and>
        (\<exists>r. srv (?ms ! j) (pageEndpoint (i + int j)) = Resp r \<and> StatusCode r = StatusOK \<and>
             decode (Body r) = Inr (?pages ! j))"
    proof (intro allI impI)
      fix j assume j: "j < length ?pages"
      show "n \<le> ?ms ! j \<and> ?ms ! j < n' \<and>
        (\<exists>r. srv (?ms ! j) (pageEndpoint (i + int j)) = Resp r \<and> StatusCode r = StatusOK \<and>
             decode (Body r) = Inr (?pages ! j))"
      proof (cases j)
        case 0
        with lt le ok got dec show ?thesis by auto
      next
        case (Suc j')
        with j have "j' < length pages" by simp
        from each [OF this] have A: "n1 \<le> ms ! j'" "ms ! j' < n'"
          and B: "\<exists>r. srv (ms ! j') (pageEndpoint (i + 1 + int j')) = Resp r \<and>
               StatusCode r = StatusOK \<and> decode (Body r) = Inr (pages ! j')"
          by blast+
        have eq: "i + int (Suc j') = i + 1 + int j'" by simp
        show ?thesis unfolding Suc eq using A B lt by simp
      qed
    qed
    from a b c d e f show ?thesis by blast
  qed
qed

text \<open>
  Each fatal condition, met by the fetch of a page, decides what \<^verbatim>\<open>requestWithRetry\<close>
  gives; and what \<^verbatim>\<open>requestWithRetry\<close> gives decides which condition was met.
\<close>

lemma exhausted_fetch:
  assumes "retry_budget_exhausted srv url n"
  shows "requestWithRetry srv url n = (Fatalf (consistently_failing url), n + maxTries)"
proof -
  from assms have "\<forall>k<maxTries. non_ok (srv (n + k) url)"
    by (simp add: retry_budget_exhausted_def list_all_upt)
  then have "requestWithRetry srv url n = requestWithRetry_loop srv url maxTries (n + maxTries)"
    by (simp add: requestWithRetry_at)
  then show ?thesis by (simp add: requestWithRetry_loop.simps)
qed

lemma transport_error_fetch:
  assumes "transport_error srv url n err"
  shows "\<exists>resp n'. requestWithRetry srv url n = (Returns resp (Some err), n')"
proof -
  from assms obtain K where K: "K < maxTries" and all: "\<forall>k<K. non_ok (srv (n + k) url)"
    and c: "case srv (n + K) url of Err resp e \<Rightarrow> e = err | Resp r \<Rightarrow> False"
    unfolding transport_error_def list_ex_upt list_all_upt by blast
  from c obtain resp where last: "srv (n + K) url = Err resp err"
    by (cases "srv (n + K) url") auto
  from K all have "requestWithRetry srv url n = requestWithRetry_loop srv url K (n + K)"
    by (simp add: requestWithRetry_at)
  also have "\<dots> = (Returns resp (Some err), n + K + 1)"
    using K last by (subst requestWithRetry_loop.simps) (simp add: client_Get_def)
  finally show ?thesis by blast
qed

lemma decode_failure_fetch:
  assumes "decode_failure srv decode url n err"
  shows "\<exists>r n'. requestWithRetry srv url n = (Returns (Some r) None, n') \<and>
           decode (Body r) = Inl err"
proof -
  from assms obtain K where K: "K < maxTries" and all: "\<forall>k<K. non_ok (srv (n + k) url)"
    and c: "case srv (n + K) url of
              Err resp e \<Rightarrow> False
            | Resp r \<Rightarrow> StatusCode r = StatusOK \<and> decode (Body r) = Inl err"
    unfolding decode_failure_def list_ex_upt list_all_upt by blast
  from c obtain r where last: "srv (n + K) url = Resp r" and ok: "StatusCode r = StatusOK"
    and dec: "decode (Body r) = Inl err"
    by (cases "srv (n + K) url") auto
  from K all have "requestWithRetry srv url n = requestWithRetry_loop srv url K (n + K)"
    by (simp add: requestWithRetry_at)
  also have "\<dots> = (Returns (Some r) None, n + K + 1)"
    using K last ok by (subst requestWithRetry_loop.simps) (simp add: client_Get_def)
  finally show ?thesis using dec by blast
qed

lemma fetch_cause:
  assumes "requestWithRetry srv url n = (res, n')"
  shows "case res of
      Fatalf msg \<Rightarrow> msg = consistently_failing url \<and> retry_budget_exhausted srv url n
    | Returns resp None \<Rightarrow> \<exists>r. resp = Some r \<and> StatusCode r = StatusOK \<and>
        (\<forall>err. decode (Body r) = Inl err \<longrightarrow> decode_failure srv decode url n err)
    | Returns resp (Some err) \<Rightarrow> transport_error srv url n err"
proof (cases res)
  case (Fatalf msg)
  with requestWithRetry_loop_cause [of srv url 0 n res n'] assms
  show ?thesis
    by (simp add: requestWithRetry_def retry_budget_exhausted_def list_all_upt)
next
  case (Returns resp err)
  with requestWithRetry_loop_cause [of srv url 0 n res n'] assms
  obtain K where K: "K < maxTries" and all: "\<forall>k<K. non_ok (srv (n + k) url)"
    and last: "(case err of
              Some e \<Rightarrow> srv (n + K) url = Err resp e
            | None \<Rightarrow> \<exists>r. resp = Some r \<and> srv (n + K) url = Resp r \<and> StatusCode r = StatusOK)"
    by (auto simp: requestWithRetry_def)
  show ?thesis
  proof (cases err)
    case None
    with last obtain r where r: "resp = Some r" "srv (n + K) url = Resp r" "StatusCode r = StatusOK"
      by auto
    have "\<And>e. decode (Body r) = Inl e \<Longrightarrow> decode_failure srv decode url n e"
      unfolding decode_failure_def list_ex_upt list_all_upt using K all r by auto
    with r None Returns show ?thesis by simp
  next
    case (Some e)
    with last have "srv (n + K) url = Err resp e" by simp
    with K all have "transport_error srv url n e"
      unfolding transport_error_def list_ex_upt list_all_upt by auto
    with Some Returns show ?thesis by simp
  qed
qed

text \<open>
  The statements run for one house end in the end of the block or in a \<^verbatim>\<open>return\<close>,
  never in \<^verbatim>\<open>log.Fatalf\<close> or a panic; a \<^verbatim>\<open>return\<close> is reached exactly when the
  request, the file creation or the copy fails.
\<close>

lemma downloadHouseImage_outcome:
  "fst (downloadHouseImage e h w) = Normal \<or> fst (downloadHouseImage e h w) = EarlyReturn"
  by (simp add: downloadHouseImage_def split: prod.splits get_result.splits option.splits)

lemma downloadHouseImage_EarlyReturn_iff:
  "fst (downloadHouseImage e h w) = EarlyReturn \<longleftrightarrow>
     (case net e (tick w) (PhotoURL h) of
        Err resp err \<Rightarrow> True
      | Resp r \<Rightarrow>
          create_err e (Suc (tick w)) (fileName h) \<noteq> None \<or>
          copy_err e (Suc (Suc (tick w))) (fileName h) \<noteq> None)"
  by (auto simp: downloadHouseImage_def worker_Get_def client_Get_def os_Create_def
      io_Copy_def split: get_result.splits option.splits prod.splits)

lemma downloadHouseImage_offline:
  "downloadHouseImage offline_env h w =
     (EarlyReturn,
      logger_Printf (fileName h) ''error getting photo: connection refused''
        (w\<lparr>tick := Suc (tick w)\<rparr>))"
  by (simp add: downloadHouseImage_def worker_Get_def client_Get_def offline_env_def
      unreachable_server_def)

lemma downloadHouseImage_readonly:
  "downloadHouseImage readonly_env h w =
     (EarlyReturn,
      logger_Printf (fileName h) ''could not create file: permission denied''
        (w\<lparr>tick := Suc (Suc (tick w))\<rparr>))"
  by (simp add: downloadHouseImage_def worker_Get_def client_Get_def readonly_env_def
      image_server_def os_Create_def)

lemma downloadHouseImage_broken_copy:
  "downloadHouseImage broken_copy_env h w =
     (EarlyReturn,
      logger_Printf (fileName h) ''error copying file contents: unexpected EOF''
        (w\<lparr>tick := Suc (Suc (Suc (tick w))), files := (files w)(fileName h \<mapsto> ''im'')\<rparr>))"
  by (simp add: downloadHouseImage_def worker_Get_def client_Get_def broken_copy_env_def
      image_server_def os_Create_def io_Copy_def)

lemma downloadHouseImage_healthy:
  "downloadHouseImage healthy_env h w =
     (Normal, w\<lparr>tick := Suc (Suc (Suc (tick w))), files := (files w)(fileName h \<mapsto> ''img'')\<rparr>)"
  by (simp add: downloadHouseImage_def worker_Get_def client_Get_def healthy_env_def
      image_server_def os_Create_def io_Copy_def)

lemma failing_server_exhausted: "retry_budget_exhausted failing_server url 0"
  by (simp add: retry_budget_exhausted_def list_all_iff failing_server_def non_ok_def
      StatusOK_def)

lemma unreachable_server_error:
  "transport_error (unreachable_server 2) url 0 ''connection refused''"
  unfolding transport_error_def list_ex_iff
  by (rule bexI [of _ 2])
    (simp_all add: list_all_iff unreachable_server_def non_ok_def StatusOK_def maxTries_def)

lemma page_server_decode_failure:
  "decode_failure page_server failing_decoder url 0 ''unexpected end of JSON input''"
  unfolding decode_failure_def list_ex_iff
  by (rule bexI [of _ 1])
    (simp_all add: list_all_iff page_server_def failing_decoder_def non_ok_def StatusOK_def
      maxTries_def)

lemma pipeHouses_failing_server:
  "pipeHouses failing_server one_house_decoder =
     ([], Fatal (consistently_failing (pageEndpoint 1)), 20)"
  by (simp add: pipeHouses_def pipeHouses_loop.simps requestWithRetry_def
      requestWithRetry_loop.simps client_Get_def failing_server_def maxTries_def StatusOK_def)

text \<open>
  The iterations the loop begins are pages between the first one and 10, and the run
  from the start is what was sent before an iteration followed by the run from that
  iteration on.
\<close>

lemma page_starts_bounds:
  "(j, m) \<in> set (page_starts srv decode i n) \<Longrightarrow> i \<le> j \<and> j \<le> 10"
proof (induction srv decode i n rule: page_starts.induct)
  case (1 srv decode i n)
  show ?case
  proof (cases "i \<le> 10")
    case False
    with "1.prems" show ?thesis by (simp add: page_starts.simps)
  next
    case True
    obtain res n1 where fetch: "requestWithRetry srv (pageEndpoint i) n = (res, n1)"
      by (cases "requestWithRetry srv (pageEndpoint i) n")
    from "1.prems" have "(j, m) = (i, n) \<or>
        (\<exists>r hs. res = Returns (Some r) None \<and> decode (Body r) = Inr hs \<and>
           (j, m) \<in> set (page_starts srv decode (i + 1) n1))"
      unfolding page_starts.simps [of srv decode i n] using True fetch
      by (auto split: fetched.splits option.splits sum.splits) metis+
    then consider "(j, m) = (i, n)"
      | r hs where "res = Returns (Some r) None" "decode (Body r) = Inr hs"
          "(j, m) \<in> set (page_starts srv decode (i + 1) n1)"
      by blast
    then show ?thesis
    proof cases
      case 1
      with True show ?thesis by simp
    next
      case 2
      from "1.IH" [OF True fetch [symmetric] 2(1) refl refl 2(2,3)] show ?thesis by simp
    qed
  qed
qed

lemma page_starts_continues:
  "(j, m) \<in> set (page_starts srv decode i n) \<Longrightarrow>
   \<exists>pre. pipeHouses_loop srv decode i n =
     (pre @ fst (pipeHouses_loop srv decode j m), snd (pipeHouses_loop srv decode j m))"
proof (induction srv decode i n rule: page_starts.induct)
  case (1 srv decode i n)
  show ?case
  proof (cases "i \<le> 10")
    case False
    with "1.prems" show ?thesis by (simp add: page_starts.simps)
  next
    case True
    obtain res n1 where fetch: "requestWithRetry srv (pageEndpoint i) n = (res, n1)"
      by (cases "requestWithRetry srv (pageEndpoint i) n")
    from "1.prems" have "(j, m) = (i, n) \<or>
        (\<exists>r hs. res = Returns (Some r) None \<and> decode (Body r) = Inr hs \<and>
           (j, m) \<in> set (page_starts srv decode (i + 1) n1))"
      unfolding page_starts.simps [of srv decode i n] using True fetch
      by (auto split: fetched.splits option.splits sum.splits) metis+
    then consider "(j, m) = (i, n)"
      | r hs where "res = Returns (Some r) None" "decode (Body r) = Inr hs"
          "(j, m) \<in> set (page_starts srv decode (i + 1) n1)"
      by blast
    then show ?thesis
    proof cases
      case 1
      then have "pipeHouses_loop srv decode i n =
          ([] @ fst (pipeHouses_loop srv decode j m), snd (pipeHouses_loop srv decode j m))"
        by simp
      then show ?thesis by blast
    next
      case 2
      from "1.IH" [OF True fetch [symmetric] 2(1) refl refl 2(2,3)]
      obtain pre where pre: "pipeHouses_loop srv decode (i + 1) n1 =
          (pre @ fst (pipeHouses_loop srv decode j m), snd (pipeHouses_loop srv decode j m))"
        by blast
      have "pipeHouses_loop srv decode i n =
          ((map Send hs @ pre) @ fst (pipeHouses_loop srv decode j m),
           snd (pipeHouses_loop srv decode j m))"
        using True fetch 2(1,2) pre
        by (subst pipeHouses_loop.simps) (simp split: prod.splits)
      then show ?thesis by blast
    qed
  qed
qed

text \<open>
  A fatal condition met by the fetch of a page ends the loop there with nothing sent; and
  a loop that does not end normally began an iteration whose fetch met one of the three
  conditions and ended there.
\<close>

lemma fatal_cause_ends_loop:
  assumes "i \<le> 10" and "fatal_cause srv decode (pageEndpoint i) n out"
  shows "\<exists>n'. pipeHouses_loop srv decode i n = ([], out, n')"
proof -
  from assms(2) consider
    "retry_budget_exhausted srv (pageEndpoint i) n" "out = Fatal (consistently_failing (pageEndpoint i))"
    | err where "transport_error srv (pageEndpoint i) n err"
        "out = Fatal (error_requesting (pageEndpoint i) err)"
    | err where "decode_failure srv decode (pageEndpoint i) n err" "out = Fatal (error_decoding err)"
    unfolding fatal_cause_def by blast
  then show ?thesis
  proof cases
    case 1
    with assms(1) have "pipeHouses_loop srv decode i n = ([], out, n + maxTries)"
      by (subst pipeHouses_loop.simps) (simp add: exhausted_fetch)
    then show ?thesis by blast
  next
    case 2
    from transport_error_fetch [OF 2(1)] obtain resp n1 where
      "requestWithRetry srv (pageEndpoint i) n = (Returns resp (Some err), n1)" by blast
    with assms(1) 2(2) have "pipeHouses_loop srv decode i n = ([], out, n1)"
      by (subst pipeHouses_loop.simps) (simp split: option.splits)
    then show ?thesis by blast
  next
    case 3
    from decode_failure_fetch [OF 3(1)] obtain r n1 where
      "requestWithRetry srv (pageEndpoint i) n = (Returns (Some r) None, n1)"
      "decode (Body r) = Inl err" by blast
    with assms(1) 3(2) have "pipeHouses_loop srv decode i n = ([], out, n1)"
      by (subst pipeHouses_loop.simps) simp
    then show ?thesis by blast
  qed
qed

lemma pipeHouses_loop_abnormal:
  "pipeHouses_loop srv decode i n = (ops, out, n') \<Longrightarrow> out \<noteq> Normal \<Longrightarrow>
   \<exists>j m. (j, m) \<in> set (page_starts srv decode i n) \<and>
     fatal_cause srv decode (pageEndpoint j) m out \<and>
     pipeHouses_loop srv decode j m = ([], out, n')"
proof (induction srv decode i n arbitrary: ops rule: pipeHouses_loop.induct)
  case (1 srv decode i n)
  show ?case
  proof (cases "i \<le> 10")
    case False
    with "1.prems" show ?thesis by (simp add: pipeHouses_loop.simps)
  next
    case True
    obtain res n1 where fetch: "requestWithRetry srv (pageEndpoint i) n = (res, n1)"
      by (cases "requestWithRetry srv (pageEndpoint i) n")
    note cause = fetch_cause [OF fetch, of decode]
    have here: "(i, n) \<in> set (page_starts srv decode i n)"
      using True by (subst page_starts.simps) simp
    show ?thesis
    proof (cases res)
      case (Fatalf msg)
      with True fetch "1.prems" have run: "pipeHouses_loop srv decode i n = ([], out, n')"
        and "out = Fatal msg"
        by (subst (asm) pipeHouses_loop.simps, simp)+
      with cause Fatalf have "fatal_cause srv decode (pageEndpoint i) n out"
        by (simp add: fatal_cause_def)
      with here run show ?thesis by blast
    next
      case (Returns resp err)
      show ?thesis
      proof (cases err)
        case (Some e)
        with True fetch Returns "1.prems"
        have run: "pipeHouses_loop srv decode i n = ([], out, n')"
          and "out = Fatal (error_requesting (pageEndpoint i) e)"
          by (subst (asm) pipeHouses_loop.simps, auto split: option.splits)+
        with cause Returns Some have "fatal_cause srv decode (pageEndpoint i) n out"
          by (auto simp: fatal_cause_def)
        with here run show ?thesis by blast
      next
        case None
        with cause Returns obtain r where r: "resp = Some r"
          and df: "\<And>e. decode (Body r) = Inl e \<Longrightarrow> decode_failure srv decode (pageEndpoint i) n e"
          by auto
        show ?thesis
        proof (cases "decode (Body r)")
          case (Inl e)
          with True fetch Returns None r "1.prems"
          have run: "pipeHouses_loop srv decode i n = ([], out, n')"
            and "out = Fatal (error_decoding e)"
            by (subst (asm) pipeHouses_loop.simps, simp)+
          with df [OF Inl] have "fatal_cause srv decode (pageEndpoint i) n out"
            by (auto simp: fatal_cause_def)
          with here run show ?thesis by blast
        next
          case (Inr hs)
          with True fetch Returns None r "1.prems"
          obtain ops' where "pipeHouses_loop srv decode (i + 1) n1 = (ops', out, n')"
            by (subst (asm) pipeHouses_loop.simps) (auto split: prod.splits)
          from "1.IH" [OF True fetch [symmetric] Returns r None Inr this "1.prems"(2)]
          obtain j m where jm: "(j, m) \<in> set (page_starts srv decode (i + 1) n1)"
            "fatal_cause srv decode (pageEndpoint j) m out"
            "pipeHouses_loop srv decode j m = ([], out, n')"
            by blast
          have "(j, m) \<in> set (page_starts srv decode i n)"
            using True fetch Returns None r Inr jm(1)
            by (subst page_starts.simps) simp
          with jm show ?thesis by blast
        qed
      qed
    qed
  qed
qed

lemma page_starts_down_after:
  "page_starts (down_after 1) one_house_decoder 1 0 = [(1, 0), (2, 1)]"
  by (simp add: page_starts.simps requestWithRetry_def requestWithRetry_loop.simps
      client_Get_def down_after_def one_house_decoder_def maxTries_def StatusOK_def)

lemma down_after_error:
  "transport_error (down_after 1) url 1 ''connection refused''"
  unfolding transport_error_def list_ex_iff
  by (rule bexI [of _ 0]) (simp_all add: down_after_def maxTries_def)

lemma pipeHouses_down_after:
  "pipeHouses (down_after 1) one_house_decoder =
     ([Send (house_of (pageEndpoint 1))],
      Fatal (error_requesting (pageEndpoint 2) ''connection refused''), 2)"
  by (simp add: pipeHouses_def pipeHouses_loop.simps requestWithRetry_def
      requestWithRetry_loop.simps client_Get_def down_after_def one_house_decoder_def
      maxTries_def StatusOK_def)

text \<open>
  C8. The process is ended at once, with nothing more sent, by each of three conditions
  on the fetch of a page: the retry budget exhausted on responses other than 200, an
  error returned by the request, and a 200 response whose body does not decode. When the
  fetch of a page whose iteration the run of \<^verbatim>\<open>pipeHouses\<close> begins meets one of the
  three, the run ends in \<^verbatim>\<open>log.Fatalf\<close> with the message for it. Whenever
  \<^verbatim>\<open>pipeHouses\<close> does not end normally, its run began the iteration of one of the
  pages 1 to 10 whose fetch, from the number of requests issued before it, met one of the
  three conditions, and the run ended there with that message and nothing sent from that
  iteration (in particular it never panics). The statements a worker runs for a house
  never end the process.
\<close>

theorem fatal_conditions:
  "(i \<le> 10 \<and> retry_budget_exhausted srv (pageEndpoint i) n \<longrightarrow>
      pipeHouses_loop srv decode i n =
        ([], Fatal (consistently_failing (pageEndpoint i)), n + maxTries)) \<and>
   (i \<le> 10 \<and> transport_error srv (pageEndpoint i) n err \<longrightarrow>
      (\<exists>n'. pipeHouses_loop srv decode i n =
         ([], Fatal (error_requesting (pageEndpoint i) err), n'))) \<and>
   (i \<le> 10 \<and> decode_failure srv decode (pageEndpoint i) n err \<longrightarrow>
      (\<exists>n'. pipeHouses_loop srv decode i n = ([], Fatal (error_decoding err), n'))) \<and>
   ((j, m) \<in> set (page_starts srv decode 1 0) \<and>
    fatal_cause srv decode (pageEndpoint j) m out \<longrightarrow>
      fst (snd (pipeHouses srv decode)) = out) \<and>
   (pipeHouses srv decode = (ops, out, n') \<longrightarrow>
      out = Normal \<or>
      (\<exists>j m. (j, m) \<in> set (page_starts srv decode 1 0) \<and> 1 \<le> j \<and> j \<le> 10 \<and>
         fatal_cause srv decode (pageEndpoint j) m out \<and>
         pipeHouses_loop srv decode j m = ([], out, n'))) \<and>
   (fst (downloadHouseImage e h w) = Normal \<or> fst (downloadHouseImage e h w) = EarlyReturn)"
proof -
  have a: "i \<le> 10 \<and> retry_budget_exhausted srv (pageEndpoint i) n \<longrightarrow>
      pipeHouses_loop srv decode i n =
        ([], Fatal (consistently_failing (pageEndpoint i)), n + maxTries)"
    by (subst pipeHouses_loop.simps) (simp add: exhausted_fetch)
  have b: "i \<le> 10 \<and> transport_error srv (pageEndpoint i) n err \<longrightarrow>
      (\<exists>n'. pipeHouses_loop srv decode i n =
         ([], Fatal (error_requesting (pageEndpoint i) err), n'))"
    using fatal_cause_ends_loop
      [of i srv decode n "Fatal (error_requesting (pageEndpoint i) err)"]
    by (auto simp: fatal_cause_def)
  have c: "i \<le> 10 \<and> decode_failure srv decode (pageEndpoint i) n err \<longrightarrow>
      (\<exists>n'. pipeHouses_loop srv decode i n = ([], Fatal (error_decoding err), n'))"
    using fatal_cause_ends_loop [of i srv decode n "Fatal (error_decoding err)"]
    by (auto simp: fatal_cause_def)
  have d: "(j, m) \<in> set (page_starts srv decode 1 0) \<and>
      fatal_cause srv decode (pageEndpoint j) m out \<longrightarrow>
      fst (snd (pipeHouses srv decode)) = out"
  proof (intro impI, elim conjE)
    assume jm: "(j, m) \<in> set (page_starts srv decode 1 0)"
      and fc: "fatal_cause srv decode (pageEndpoint j) m out"
    from page_starts_bounds [OF jm] have "j \<le> 10" by simp
    from fatal_cause_ends_loop [OF this fc] obtain n1 where
      "pipeHouses_loop srv decode j m = ([], out, n1)" by blast
    with page_starts_continues [OF jm] show "fst (snd (pipeHouses srv decode)) = out"
      by (auto simp: pipeHouses_def)
  qed
  have f: "pipeHouses srv decode = (ops, out, n') \<longrightarrow>
      out = Normal \<or>
      (\<exists>j m. (j, m) \<in> set (page_starts srv decode 1 0) \<and> 1 \<le> j \<and> j \<le> 10 \<and>
         fatal_cause srv decode (pageEndpoint j) m out \<and>
         pipeHouses_loop srv decode j m = ([], out, n'))"
  proof (intro impI)
    assume run: "pipeHouses srv decode = (ops, out, n')"
    show "out = Normal \<or>
      (\<exists>j m. (j, m) \<in> set (page_starts srv decode 1 0) \<and> 1 \<le> j \<and> j \<le> 10 \<and>
         fatal_cause srv decode (pageEndpoint j) m out \<and>
         pipeHouses_loop srv decode j m = ([], out, n'))"
    proof (cases "out = Normal")
      case True
      then show ?thesis by simp
    next
      case False
      from pipeHouses_loop_abnormal [OF run [unfolded pipeHouses_def] False]
      obtain j m where jm: "(j, m) \<in> set (page_starts srv decode 1 0)"
        "fatal_cause srv decode (pageEndpoint j) m out"
        "pipeHouses_loop srv decode j m = ([], out, n')" by blast
      from page_starts_bounds [OF jm(1)] jm show ?thesis by blast
    qed
  qed
  from a b c d f downloadHouseImage_outcome [of e h w] show ?thesis by blast
qed

text \<open>
  The three conditions at the first page, and a server that answers the first page and
  refuses the connection for the second: the run begins the second iteration after one
  request and ends there.
\<close>

theorem fatal_conditions_witness:
  "retry_budget_exhausted failing_server (pageEndpoint 1) 0 \<and>
   pipeHouses_loop failing_server one_house_decoder 1 0 =
     ([], Fatal (consistently_failing (pageEndpoint 1)), 20) \<and>
   transport_error (unreachable_server 2) (pageEndpoint 1) 0 ''connection refused'' \<and>
   (\<exists>n'. pipeHouses_loop (unreachable_server 2) one_house_decoder 1 0 =
      ([], Fatal (error_requesting (pageEndpoint 1) ''connection refused''), n')) \<and>
   decode_failure page_server failing_decoder (pageEndpoint 1) 0
     ''unexpected end of JSON input'' \<and>
   (\<exists>n'. pipeHouses_loop page_server failing_decoder 1 0 =
      ([], Fatal (error_decoding ''unexpected end of JSON input''), n')) \<and>
   (2, 1) \<in> set (page_starts (down_after 1) one_house_decoder 1 0) \<and>
   fatal_cause (down_after 1) one_house_decoder (pageEndpoint 2) 1
     (Fatal (error_requesting (pageEndpoint 2) ''connection refused'')) \<and>
   fst (snd (pipeHouses (down_after 1) one_house_decoder)) =
     Fatal (error_requesting (pageEndpoint 2) ''connection refused'') \<and>
   pipeHouses (down_after 1) one_house_decoder =
     ([Send (house_of (pageEndpoint 1))],
      Fatal (error_requesting (pageEndpoint 2) ''connection refused''), 2) \<and>
   (\<exists>j m. (j, m) \<in> set (page_starts (down_after 1) one_house_decoder 1 0) \<and>
      1 \<le> j \<and> j \<le> 10 \<and>
      fatal_cause (down_after 1) one_house_decoder (pageEndpoint j) m
        (Fatal (error_requesting (pageEndpoint 2) ''connection refused'')) \<and>
      pipeHouses_loop (down_after 1) one_house_decoder j m =
        ([], Fatal (error_requesting (pageEndpoint 2) ''connection refused''), 2)) \<and>
   fst (downloadHouseImage offline_env elm_house world0) = EarlyReturn"
proof -
  note A = failing_server_exhausted [of "pageEndpoint 1"]
  note B = unreachable_server_error [of "pageEndpoint 1"]
  note C = page_server_decode_failure [of "pageEndpoint 1"]
  have S: "(2, 1) \<in> set (page_starts (down_after 1) one_house_decoder 1 0)"
    unfolding page_starts_down_after by simp
  have F: "fatal_cause (down_after 1) one_house_decoder (pageEndpoint 2) 1
     (Fatal (error_requesting (pageEndpoint 2) ''connection refused''))"
    unfolding fatal_cause_def using down_after_error [of "pageEndpoint 2"] by blast
  note D = pipeHouses_down_after
  have a: "pipeHouses_loop failing_server one_house_decoder 1 0 =
     ([], Fatal (consistently_failing (pageEndpoint 1)), 20)"
    using fatal_conditions [where i = 1 and srv = failing_server and n = 0
        and decode = one_house_decoder] A
    by (simp add: maxTries_def)
  have b: "\<exists>n'. pipeHouses_loop (unreachable_server 2) one_house_decoder 1 0 =
      ([], Fatal (error_requesting (pageEndpoint 1) ''connection refused''), n')"
    using fatal_conditions [where i = 1 and srv = "unreachable_server 2" and n = 0
        and decode = one_house_decoder and err = "''connection refused''"] B
    by simp
  have c: "\<exists>n'. pipeHouses_loop page_server failing_decoder 1 0 =
      ([], Fatal (error_decoding ''unexpected end of JSON input''), n')"
    using fatal_conditions [where i = 1 and srv = page_server and n = 0
        and decode = failing_decoder and err = "''unexpected end of JSON input''"] C
    by simp
  have d: "fst (snd (pipeHouses (down_after 1) one_house_decoder)) =
     Fatal (error_requesting (pageEndpoint 2) ''connection refused'')"
    using fatal_conditions [where srv = "down_after 1" and decode = one_house_decoder
        and j = 2 and m = 1
        and out = "Fatal (error_requesting (pageEndpoint 2) ''connection refused'')"] S F
    by blast
  have f: "\<exists>j m. (j, m) \<in> set (page_starts (down_after 1) one_house_decoder 1 0) \<and>
      1 \<le> j \<and> j \<le> 10 \<and>
      fatal_cause (down_after 1) one_house_decoder (pageEndpoint j) m
        (Fatal (error_requesting (pageEndpoint 2) ''connection refused'')) \<and>
      pipeHouses_loop (down_after 1) one_house_decoder j m =
        ([], Fatal (error_requesting (pageEndpoint 2) ''connection refused''), 2)"
    using fatal_conditions [where srv = "down_after 1" and decode = one_house_decoder
        and ops = "[Send (house_of (pageEndpoint 1))]"
        and out = "Fatal (error_requesting (pageEndpoint 2) ''connection refused'')"
        and n' = 2] D
    by simp
  have g: "fst (downloadHouseImage offline_env elm_house world0) = EarlyReturn"
    by (simp add: downloadHouseImage_offline)
  from A a B b C c S F d D f g show ?thesis by blast
qed

section \<open>File names\<close>

text \<open>
  \<^verbatim>\<open>filepath.Ext\<close> returns the extension with its leading dot.
\<close>

lemma Ext_scan_dot: "Ext_scan xs suffix = [] \<or> hd (Ext_scan xs suffix) = CHR ''.''"
  by (induction xs suffix rule: Ext_scan.induct) auto

lemma Ext_dot: "Ext path = [] \<or> hd (Ext path) = CHR ''.''"
  by (simp add: Ext_def Ext_scan_dot)

text \<open>
  C7 does not hold of the code. The format \<^verbatim>\<open>"id-%d-%s.%s"\<close> writes a dot and
  \<^verbatim>\<open>filepath.Ext\<close> brings its own: for house 7 at "12 Elm St." with a photo
  \<^verbatim>\<open>elm.jpg\<close> the derived name is \<^verbatim>\<open>id-7-12 Elm St..jpg\<close>, two dots between the
  trimmed address and \<^verbatim>\<open>jpg\<close>, where the pattern of the specification gives
  \<^verbatim>\<open>id-7-12 Elm St.jpg\<close>.
\<close>

theorem fileName_has_two_dots:
  "fileName elm_house = ''id-7-12 Elm St..jpg'' \<and>
   fileName oak_house = ''id-8-3 Oak Rd..png''"
  by (simp add: fileName_def elm_house_def oak_house_def itoa_def digit_char_def
      TrimRight_def Ext_def)

section \<open>The worker\<close>

lemma fileName_elm: "fileName elm_house = ''id-7-12 Elm St..jpg''"
  by (simp add: fileName_def elm_house_def itoa_def digit_char_def TrimRight_def Ext_def)

lemma downloadHouseImages_early_return:
  assumes "fst (downloadHouseImage e h w) \<noteq> Normal"
  shows "received (downloadHouseImages e (h # hs) w) = [h] \<and>
         wg_Done (downloadHouseImages e (h # hs) w) = False"
  using assms by (cases "downloadHouseImage e h w") (auto split: outcome.splits)

text \<open>
  C1 does not hold of the code. A worker that would be handed two houses and fails on
  the first, at the request, at the file creation or at the copy, logs the error and
  receives nothing more: the \<^verbatim>\<open>return\<close> leaves \<^verbatim>\<open>downloadHouseImages\<close>, not the
  iteration. The second house is left on the channel. Where nothing fails, the worker
  receives both.
\<close>

theorem worker_stops_at_first_error:
  "received (downloadHouseImages offline_env [elm_house, oak_house] world0) = [elm_house] \<and>
   stdout (left (downloadHouseImages offline_env [elm_house, oak_house] world0)) =
     [(CHR 0x0A # ''id-7-12 Elm St..jpg'', ''error getting photo: connection refused'')] \<and>
   received (downloadHouseImages readonly_env [elm_house, oak_house] world0) = [elm_house] \<and>
   stdout (left (downloadHouseImages readonly_env [elm_house, oak_house] world0)) =
     [(CHR 0x0A # ''id-7-12 Elm St..jpg'', ''could not create file: permission denied'')] \<and>
   received (downloadHouseImages broken_copy_env [elm_house, oak_house] world0) = [elm_house] \<and>
   stdout (left (downloadHouseImages broken_copy_env [elm_house, oak_house] world0)) =
     [(CHR 0x0A # ''id-7-12 Elm St..jpg'', ''error copying file contents: unexpected EOF'')] \<and>
   received (downloadHouseImages healthy_env [elm_house, oak_house] world0) =
     [elm_house, oak_house]"
  by (simp add: downloadHouseImage_offline downloadHouseImage_readonly
      downloadHouseImage_broken_copy downloadHouseImage_healthy logger_Printf_def
      world0_def fileName_elm)

section \<open>The pipeline\<close>

text \<open>
  The producer blocks on a send until a worker takes it, so what has been sent is at
  every moment a prefix of the producer's houses; and when the channel is closed,
  everything has been sent.
\<close>

lemma sends_append: "sends (xs @ ys) = sends xs @ sends ys"
  by (induction xs rule: sends.induct) simp_all

lemma sends_map_Send: "sends (map Send hs) = hs"
  by (induction hs) simp_all

lemma todo_is_rest:
  "(step e)\<^sup>*\<^sup>* (main_started ops w) p \<Longrightarrow>
   \<exists>past. ops = past @ todo p \<and> sent p = sends past \<and> (closed p \<longleftrightarrow> Close \<in> set past)"
proof (induction rule: rtranclp_induct)
  case base
  show ?case by (simp add: main_started_def)
next
  case (step p q)
  then obtain past where past: "ops = past @ todo p" "sent p = sends past"
    "closed p \<longleftrightarrow> Close \<in> set past" by blast
  from step.hyps(2) show ?case
  proof (cases rule: step.cases)
    case (handoff h rest i out w')
    with past have "ops = (past @ [Send h]) @ todo q \<and> sent q = sends (past @ [Send h]) \<and>
        (closed q \<longleftrightarrow> Close \<in> set (past @ [Send h]))"
      by (simp add: sends_append)
    then show ?thesis by blast
  next
    case (close rest)
    with past have "ops = (past @ [Close]) @ todo q \<and> sent q = sends (past @ [Close]) \<and>
        (closed q \<longleftrightarrow> Close \<in> set (past @ [Close]))"
      by (simp add: sends_append)
    then show ?thesis by blast
  next
    case (release i)
    with past show ?thesis by auto
  qed
qed

lemma closed_after_all_sent:
  assumes "(step e)\<^sup>*\<^sup>* (main_started (map Send hs @ [Close]) w) p"
  shows "(\<exists>rest. hs = sent p @ rest) \<and> (closed p \<longrightarrow> sent p = hs)"
proof -
  from todo_is_rest [OF assms] obtain past where
    ops: "map Send hs @ [Close] = past @ todo p" and s: "sent p = sends past"
    and c: "closed p \<longleftrightarrow> Close \<in> set past" by blast
  have "sends (past @ todo p) = hs"
    using ops [symmetric] by (simp add: sends_append sends_map_Send)
  then have pre: "hs = sent p @ sends (todo p)" using s by (simp add: sends_append)
  have "closed p \<longrightarrow> sent p = hs"
  proof
    assume "closed p"
    with c have in_past: "Close \<in> set past" by simp
    have "todo p = []"
    proof (cases "todo p" rule: rev_cases)
      case Nil
      then show ?thesis .
    next
      case (snoc t x)
      with ops have "map Send hs = past @ t" by simp
      then have "set past \<subseteq> set (map Send hs)" by (metis set_append Un_upper1)
      with in_past show ?thesis by auto
    qed
    with pre show "sent p = hs" by simp
  qed
  with pre show ?thesis by blast
qed

text \<open>
  The counter of \<^verbatim>\<open>wg\<close> is the number of workers that have not called
  \<^verbatim>\<open>wg.Done()\<close>, and a worker that left by \<^verbatim>\<open>return\<close> stays as it is: it never
  receives again and never calls \<^verbatim>\<open>wg.Done()\<close>.
\<close>

lemma length_filter_update_same:
  "i < length xs \<Longrightarrow> P (xs ! i) = P y \<Longrightarrow>
   length (filter P (xs[i := y])) = length (filter P xs)"
proof (induction xs arbitrary: i)
  case Nil
  then show ?case by simp
next
  case (Cons x xs)
  then show ?case by (cases i) auto
qed

lemma length_filter_update_drop:
  "i < length xs \<Longrightarrow> P (xs ! i) \<Longrightarrow> \<not> P y \<Longrightarrow>
   Suc (length (filter P (xs[i := y]))) = length (filter P xs)"
proof (induction xs arbitrary: i)
  case Nil
  then show ?case by simp
next
  case (Cons x xs)
  then show ?case by (cases i) auto
qed

lemma unreleased_pos:
  "i < length ws \<Longrightarrow> status (ws ! i) \<noteq> Released \<Longrightarrow> 0 < unreleased ws"
proof -
  assume "i < length ws" "status (ws ! i) \<noteq> Released"
  then have "ws ! i \<in> set (filter (\<lambda>x. status x \<noteq> Released) ws)" by simp
  then show ?thesis unfolding unreleased_def by (metis length_pos_if_in_set)
qed

lemma wg_step:
  assumes "step e p q" and "wg p = int (unreleased (workers p))"
  shows "wg q = int (unreleased (workers q))"
  using assms
proof (cases rule: step.cases)
  case (handoff h rest i out w')
  then have "unreleased (workers q) = unreleased (workers p)"
    by (simp add: unreleased_def length_filter_update_same)
  with handoff assms(2) show ?thesis by simp
next
  case (close rest)
  with assms(2) show ?thesis by simp
next
  case (release i)
  then have "Suc (unreleased (workers q)) = unreleased (workers p)"
    by (simp add: unreleased_def length_filter_update_drop)
  with release assms(2) show ?thesis by simp
qed

lemma wg_reachable:
  "(step e)\<^sup>*\<^sup>* (main_started ops w) p \<Longrightarrow> wg p = int (unreleased (workers p))"
proof (induction rule: rtranclp_induct)
  case base
  show ?case by (simp add: main_started_def unreleased_def)
next
  case (step p q)
  then show ?case using wg_step by blast
qed

lemma Returned_step:
  assumes "step e p q" and "i < length (workers p)" and "status (workers p ! i) = Returned"
  shows "i < length (workers q) \<and> status (workers q ! i) = Returned \<and>
         handled (workers q ! i) = handled (workers p ! i)"
  using assms
proof (cases rule: step.cases)
  case (handoff h rest j out w')
  with assms(3) have "j \<noteq> i" by auto
  with handoff assms(2,3) show ?thesis by simp
next
  case (close rest)
  with assms(2,3) show ?thesis by simp
next
  case (release j)
  with assms(3) have "j \<noteq> i" by auto
  with release assms(2,3) show ?thesis by simp
qed

lemma Returned_reachable:
  "(step e)\<^sup>*\<^sup>* p q \<Longrightarrow> i < length (workers p) \<Longrightarrow> status (workers p ! i) = Returned \<Longrightarrow>
   i < length (workers q) \<and> status (workers q ! i) = Returned \<and>
   handled (workers q ! i) = handled (workers p ! i)"
proof (induction rule: rtranclp_induct)
  case base
  then show ?case by simp
next
  case (step q r)
  then show ?case using Returned_step [of e q r i] by simp
qed

lemma two_houses_step_offline:
  "step offline_env two_houses
     (two_houses_taken EarlyReturn
        (logger_Printf (fileName elm_house) ''error getting photo: connection refused''
           (world0\<lparr>tick := Suc (tick world0)\<rparr>)))"
proof -
  have "step offline_env two_houses
     (two_houses\<lparr>todo := [Send oak_house, Close], sent := sent two_houses @ [elm_house],
       workers := (workers two_houses)
         [3 := \<lparr>status = (if EarlyReturn = Normal then Receiving else Returned),
                handled = handled (workers two_houses ! 3) @ [(length (sent two_houses), elm_house)]\<rparr>],
       shared := logger_Printf (fileName elm_house) ''error getting photo: connection refused''
           (world0\<lparr>tick := Suc (tick world0)\<rparr>)\<rparr>)"
    by (rule step.handoff)
      (simp_all add: two_houses_def main_started_def maxGoroutines_def downloadHouseImage_offline)
  then show ?thesis by (simp add: two_houses_taken_def)
qed

text \<open>
  C2 does not hold of the code. Once one worker has left by a \<^verbatim>\<open>return\<close>, which any
  failure on a house causes, the counter of \<^verbatim>\<open>wg\<close> stays above zero in every later
  state: \<^verbatim>\<open>wg.Wait()\<close> in \<^verbatim>\<open>main\<close> never returns.
\<close>

theorem Wait_blocked_by_early_return:
  assumes "(step e)\<^sup>*\<^sup>* (main_started ops w) p"
    and "i < length (workers p)"
    and "status (workers p ! i) = Returned"
    and "(step e)\<^sup>*\<^sup>* p q"
  shows "\<not> Wait_returns q"
proof -
  from assms(1,4) have "(step e)\<^sup>*\<^sup>* (main_started ops w) q" by simp
  then have "wg q = int (unreleased (workers q))" by (rule wg_reachable)
  moreover from Returned_reachable [OF assms(4,2,3)]
  have "0 < unreleased (workers q)" using unreleased_pos [of i "workers q"] by simp
  ultimately show ?thesis by (simp add: Wait_returns_def)
qed

theorem Wait_blocked_by_early_return_witness:
  "(step offline_env)\<^sup>*\<^sup>* two_houses
     (two_houses_taken EarlyReturn
        (logger_Printf (fileName elm_house) ''error getting photo: connection refused''
           (world0\<lparr>tick := Suc (tick world0)\<rparr>))) \<and>
   status (workers (two_houses_taken EarlyReturn
        (logger_Printf (fileName elm_house) ''error getting photo: connection refused''
           (world0\<lparr>tick := Suc (tick world0)\<rparr>))) ! 3) = Returned \<and>
   \<not> Wait_returns (two_houses_taken EarlyReturn
        (logger_Printf (fileName elm_house) ''error getting photo: connection refused''
           (world0\<lparr>tick := Suc (tick world0)\<rparr>))) \<and>
   wg_Done (downloadHouseImages offline_env [elm_house, oak_house] world0) = False"
proof -
  let ?q = "two_houses_taken EarlyReturn
        (logger_Printf (fileName elm_house) ''error getting photo: connection refused''
           (world0\<lparr>tick := Suc (tick world0)\<rparr>))"
  have reach: "(step offline_env)\<^sup>*\<^sup>* (main_started [Send elm_house, Send oak_house, Close] world0) ?q"
    using two_houses_step_offline by (simp add: two_houses_def)
  have len: "3 < length (workers ?q)"
    by (simp add: two_houses_taken_def two_houses_def main_started_def maxGoroutines_def)
  have st: "status (workers ?q ! 3) = Returned"
    by (simp add: two_houses_taken_def two_houses_def main_started_def maxGoroutines_def)
  have "\<not> Wait_returns ?q"
    using Wait_blocked_by_early_return [OF reach len st] by simp
  moreover have "wg_Done (downloadHouseImages offline_env [elm_house, oak_house] world0) = False"
    by (simp add: downloadHouseImage_offline)
  ultimately show ?thesis using reach st by (simp add: two_houses_def)
qed

section \<open>The producer in the pipeline\<close>

text \<open>
  When \<^verbatim>\<open>pipeHouses\<close> meets no fatal error over the pages 1 to 10, the channel
  operations of its goroutine are the sends of the concatenation of ten house lists, in
  page order and within a page in listed order, followed by one \<^verbatim>\<open>close\<close>, which is
  the last operation; the \<open>j\<close>-th list is what the decoder made of the body of a 200
  response to the URL of page \<open>j + 1\<close>. In the pipeline, what has been sent is at every
  moment a prefix of that concatenation, and all of it once the channel is closed or the
  producer has nothing left to do.
\<close>

lemma done_after_all_sent:
  assumes "(step e)\<^sup>*\<^sup>* (main_started (map Send hs @ [Close]) w) p"
  shows "(\<exists>rest. hs = sent p @ rest) \<and> (closed p \<longrightarrow> sent p = hs) \<and>
         (todo p = [] \<longrightarrow> closed p \<and> sent p = hs)"
proof -
  from todo_is_rest [OF assms] obtain past where
    ops: "map Send hs @ [Close] = past @ todo p" and s: "sent p = sends past"
    and c: "closed p \<longleftrightarrow> Close \<in> set past" by blast
  have "todo p = [] \<longrightarrow> closed p"
  proof
    assume "todo p = []"
    with ops have "past = map Send hs @ [Close]" by simp
    with c show "closed p" by simp
  qed
  with closed_after_all_sent [OF assms] show ?thesis by blast
qed

lemma pipeHouses_sends_pages_in_order:
  assumes "pipeHouses srv decode = (ops, Normal, n')"
    and "(step e)\<^sup>*\<^sup>* (main_started ops w) p"
  shows "\<exists>pages ms. length pages = 10 \<and> length ms = 10 \<and> sorted_wrt (<) ms \<and>
     (\<forall>j<10. ms ! j < n' \<and>
        (\<exists>r. srv (ms ! j) (pageEndpoint (1 + int j)) = Resp r \<and> StatusCode r = StatusOK \<and>
             decode (Body r) = Inr (pages ! j))) \<and>
     ops = map Send (concat pages) @ [Close] \<and>
     (\<exists>rest. concat pages = sent p @ rest) \<and>
     (closed p \<longrightarrow> sent p = concat pages) \<and>
     (todo p = [] \<longrightarrow> closed p \<and> sent p = concat pages)"
proof -
  from pipeHouses_loop_Normal [of srv decode 1 0 ops n'] assms(1)
  obtain pages ms where len: "length pages = 10" "length ms = 10" and srt: "sorted_wrt (<) ms"
    and ops: "ops = map Send (concat pages) @ [Close]"
    and each: "\<forall>j<10. ms ! j < n' \<and>
        (\<exists>r. srv (ms ! j) (pageEndpoint (1 + int j)) = Resp r \<and> StatusCode r = StatusOK \<and>
             decode (Body r) = Inr (pages ! j))"
    unfolding pipeHouses_def by (simp del: sorted_wrt.simps) metis
  from done_after_all_sent [OF assms(2) [unfolded ops]]
  have "(\<exists>rest. concat pages = sent p @ rest) \<and> (closed p \<longrightarrow> sent p = concat pages) \<and>
         (todo p = [] \<longrightarrow> closed p \<and> sent p = concat pages)" .
  with len srt ops each show ?thesis by blast
qed

text \<open>
  The handoff to a chosen worker is a run of the pipeline (of one step or none), and
  \<open>can_step\<close> holds exactly of the states that have a step.
\<close>

lemma deliver_reachable: "(step e)\<^sup>*\<^sup>* p (deliver e i p)"
proof (cases "todo p")
  case Nil
  then show ?thesis by (simp add: deliver_def)
next
  case (Cons op rest)
  show ?thesis
  proof (cases op)
    case Close
    with Cons show ?thesis by (simp add: deliver_def)
  next
    case (Send h)
    show ?thesis
    proof (cases "i < length (workers p) \<and> status (workers p ! i) = Receiving")
      case False
      with Cons Send show ?thesis by (auto simp: deliver_def)
    next
      case True
      obtain out w' where dl: "downloadHouseImage e h (shared p) = (out, w')"
        by (cases "downloadHouseImage e h (shared p)")
      from Cons Send True dl have "step e p
         (p\<lparr>todo := rest, sent := sent p @ [h],
            workers := (workers p)
              [i := \<lparr>status = (if out = Normal then Receiving else Returned),
                     handled = handled (workers p ! i) @ [(length (sent p), h)]\<rparr>],
            shared := w'\<rparr>)"
        by - (rule step.handoff, simp_all)
      moreover from Cons Send True dl have "deliver e i p =
         p\<lparr>todo := rest, sent := sent p @ [h],
            workers := (workers p)
              [i := \<lparr>status = (if out = Normal then Receiving else Returned),
                     handled = handled (workers p ! i) @ [(length (sent p), h)]\<rparr>],
            shared := w'\<rparr>"
        by (simp add: deliver_def)
      ultimately show ?thesis by simp
    qed
  qed
qed

lemma deliveries_reachable: "(step e)\<^sup>*\<^sup>* p (foldl (\<lambda>p i. deliver e i p) p is)"
proof (induction "is" arbitrary: p)
  case Nil
  show ?case by simp
next
  case (Cons i "is")
  have "(step e)\<^sup>*\<^sup>* p (deliver e i p)" by (rule deliver_reachable)
  also have "(step e)\<^sup>*\<^sup>* (deliver e i p) (foldl (\<lambda>p i. deliver e i p) (deliver e i p) is)"
    by (rule Cons.IH)
  finally show ?case by simp
qed

lemma list_ex_Receiving:
  "list_ex (\<lambda>x. status x = Receiving) ws \<longleftrightarrow> (\<exists>i<length ws. status (ws ! i) = Receiving)"
proof
  assume "list_ex (\<lambda>x. status x = Receiving) ws"
  then obtain x where "x \<in> set ws" "status x = Receiving" by (auto simp: list_ex_iff)
  then show "\<exists>i<length ws. status (ws ! i) = Receiving" by (auto simp: in_set_conv_nth)
next
  assume "\<exists>i<length ws. status (ws ! i) = Receiving"
  then obtain i where "i < length ws" "status (ws ! i) = Receiving" by blast
  then have "ws ! i \<in> set ws" "status (ws ! i) = Receiving" by simp_all
  then show "list_ex (\<lambda>x. status x = Receiving) ws" unfolding list_ex_iff by blast
qed

lemma step_can_step: "step e p q \<Longrightarrow> can_step p"
  by (induction rule: step.induct)
    (auto simp: can_step_def list_ex_Receiving split: list.splits chan_op.splits)

lemma can_step_step:
  assumes "can_step p"
  shows "\<exists>q. step e p q"
proof (cases "todo p")
  case Nil
  with assms obtain i where "closed p" "i < length (workers p)" "status (workers p ! i) = Receiving"
    by (auto simp: can_step_def list_ex_Receiving)
  then show ?thesis by (blast intro: step.release)
next
  case (Cons op rest)
  show ?thesis
  proof (cases op)
    case Close
    with Cons show ?thesis by (blast intro: step.close)
  next
    case (Send h)
    with Cons assms obtain i where i: "i < length (workers p)" "status (workers p ! i) = Receiving"
      by (auto simp: can_step_def list_ex_Receiving)
    obtain out w' where "downloadHouseImage e h (shared p) = (out, w')"
      by (cases "downloadHouseImage e h (shared p)")
    with Cons Send i show ?thesis by (blast intro: step.handoff)
  qed
qed

text \<open>
  Where every download fails, each worker that takes a house leaves by \<^verbatim>\<open>return\<close>:
  after the first \<open>k\<close> workers have taken one house each, \<open>k\<close> houses are sent and
  these workers have returned.
\<close>

lemma deliveries_all_fail:
  assumes fail: "\<And>h w. fst (downloadHouseImage e h w) \<noteq> Normal"
  shows "k \<le> maxGoroutines \<Longrightarrow> k \<le> length hs \<Longrightarrow>
    todo (foldl (\<lambda>p i. deliver e i p) (main_started (map Send hs @ rest) w) [0..<k]) =
      map Send (drop k hs) @ rest \<and>
    sent (foldl (\<lambda>p i. deliver e i p) (main_started (map Send hs @ rest) w) [0..<k]) =
      take k hs \<and>
    \<not> closed (foldl (\<lambda>p i. deliver e i p) (main_started (map Send hs @ rest) w) [0..<k]) \<and>
    length (workers (foldl (\<lambda>p i. deliver e i p) (main_started (map Send hs @ rest) w) [0..<k])) =
      maxGoroutines \<and>
    (\<forall>i<maxGoroutines.
       status (workers (foldl (\<lambda>p i. deliver e i p) (main_started (map Send hs @ rest) w) [0..<k]) ! i) =
         (if i < k then Returned else Receiving))"
proof (induction k)
  case 0
  show ?case by (simp add: main_started_def)
next
  case (Suc k)
  let ?q = "foldl (\<lambda>p i. deliver e i p) (main_started (map Send hs @ rest) w) [0..<k]"
  from Suc have td: "todo ?q = map Send (drop k hs) @ rest" and st: "sent ?q = take k hs"
    and cl: "\<not> closed ?q" and len: "length (workers ?q) = maxGoroutines"
    and ws: "\<And>i. i < maxGoroutines \<Longrightarrow>
        status (workers ?q ! i) = (if i < k then Returned else Receiving)"
    by simp_all
  from Suc.prems have k: "k < maxGoroutines" "k < length hs" by simp_all
  have td': "todo ?q = Send (hs ! k) # (map Send (drop (Suc k) hs) @ rest)"
    using td k(2) by (simp add: Cons_nth_drop_Suc [symmetric])
  have rk: "status (workers ?q ! k) = Receiving" using ws [OF k(1)] by simp
  obtain out w' where dl: "downloadHouseImage e (hs ! k) (shared ?q) = (out, w')"
    by (cases "downloadHouseImage e (hs ! k) (shared ?q)")
  with fail [of "hs ! k" "shared ?q"] have out: "out \<noteq> Normal" by simp
  have next_q: "foldl (\<lambda>p i. deliver e i p) (main_started (map Send hs @ rest) w) [0..<Suc k] =
      ?q\<lparr>todo := map Send (drop (Suc k) hs) @ rest, sent := sent ?q @ [hs ! k],
         workers := (workers ?q)
           [k := \<lparr>status = Returned,
                  handled = handled (workers ?q ! k) @ [(length (sent ?q), hs ! k)]\<rparr>],
         shared := w'\<rparr>"
    using td' rk len k(1) dl out by (simp add: deliver_def)
  show ?case
    unfolding next_q using st cl len ws k
    by (simp add: take_Suc_conv_app_nth nth_list_update)
qed

text \<open>
  In every run where every download fails, each house sent costs a worker at its
  receive, so that no more than \<open>maxGoroutines\<close> houses are ever sent; a producer with
  more houses than that never reaches its \<^verbatim>\<open>close\<close>.
\<close>

lemma Receiving_step:
  assumes "step e p q" and "\<And>h w. fst (downloadHouseImage e h w) \<noteq> Normal"
  shows "length (sent q) + length (filter (\<lambda>x. status x = Receiving) (workers q)) \<le>
         length (sent p) + length (filter (\<lambda>x. status x = Receiving) (workers p))"
  using assms(1)
proof (cases rule: step.cases)
  case (handoff h rest i out w')
  from assms(2) [of h "shared p"] handoff(5) have "out \<noteq> Normal" by auto
  with handoff have "Suc (length (filter (\<lambda>x. status x = Receiving) (workers q))) =
      length (filter (\<lambda>x. status x = Receiving) (workers p))"
    by (simp add: length_filter_update_drop)
  with handoff show ?thesis by simp
next
  case (close rest)
  then show ?thesis by simp
next
  case (release i)
  then have "Suc (length (filter (\<lambda>x. status x = Receiving) (workers q))) =
      length (filter (\<lambda>x. status x = Receiving) (workers p))"
    by (simp add: length_filter_update_drop)
  with release show ?thesis by simp
qed

lemma sent_bounded_by_workers:
  assumes "\<And>h w. fst (downloadHouseImage e h w) \<noteq> Normal"
    and "(step e)\<^sup>*\<^sup>* (main_started ops w) p"
  shows "length (sent p) + length (filter (\<lambda>x. status x = Receiving) (workers p)) \<le>
         maxGoroutines"
  using assms(2)
proof (induction rule: rtranclp_induct)
  case base
  show ?case by (simp add: main_started_def)
next
  case (step p q)
  from Receiving_step [OF step.hyps(2) assms(1)] step.IH show ?case by simp
qed

lemma never_closed_when_all_fail:
  assumes "\<And>h w. fst (downloadHouseImage e h w) \<noteq> Normal"
    and "(step e)\<^sup>*\<^sup>* (main_started (map Send hs @ [Close]) w) p"
    and "maxGoroutines < length hs"
  shows "length (sent p) \<le> maxGoroutines \<and> \<not> closed p"
proof -
  from sent_bounded_by_workers [OF assms(1) assms(2)]
  have le: "length (sent p) \<le> maxGoroutines" by simp
  from closed_after_all_sent [OF assms(2)] have "closed p \<longrightarrow> sent p = hs" by blast
  with le assms(3) show ?thesis by auto
qed

lemma pipeHouses_thirty:
  "pipeHouses page_server three_house_decoder =
     (map Send (concat (map (\<lambda>i. [house_of (pageEndpoint i), house_of (pageEndpoint i),
          house_of (pageEndpoint i)]) [1, 2, 3, 4, 5, 6, 7, 8, 9, 10])) @ [Close],
      Normal, 20)"
  by (simp add: pipeHouses_def pipeHouses_loop.simps requestWithRetry_def
      requestWithRetry_loop.simps client_Get_def page_server_def three_house_decoder_def
      maxTries_def StatusOK_def)

lemma offline_fails: "fst (downloadHouseImage offline_env h w) \<noteq> Normal"
  by (simp add: downloadHouseImage_offline)

lemma thirty_houses_stalled_state:
  "(step offline_env)\<^sup>*\<^sup>* thirty_houses thirty_houses_stalled \<and>
   \<not> can_step thirty_houses_stalled \<and> length (sent thirty_houses_stalled) = 20 \<and>
   \<not> closed thirty_houses_stalled"
proof -
  let ?hs = "concat (map (\<lambda>i. [house_of (pageEndpoint i), house_of (pageEndpoint i),
          house_of (pageEndpoint i)]) [1, 2, 3, 4, 5, 6, 7, 8, 9, 10 :: int])"
  have start: "thirty_houses = main_started (map Send ?hs @ [Close]) world0"
    by (simp add: thirty_houses_def pipeHouses_thirty)
  have lhs: "length ?hs = 30" by simp
  have reach: "(step offline_env)\<^sup>*\<^sup>* thirty_houses thirty_houses_stalled"
    unfolding thirty_houses_stalled_def by (rule deliveries_reachable)
  from deliveries_all_fail [of offline_env maxGoroutines ?hs "[Close]" world0, OF offline_fails]
  have td: "todo thirty_houses_stalled = map Send (drop maxGoroutines ?hs) @ [Close]"
    and st: "sent thirty_houses_stalled = take maxGoroutines ?hs"
    and cl: "\<not> closed thirty_houses_stalled"
    and len: "length (workers thirty_houses_stalled) = maxGoroutines"
    and ws: "\<forall>i<maxGoroutines. status (workers thirty_houses_stalled ! i) = Returned"
    unfolding thirty_houses_stalled_def start using lhs by (simp_all add: maxGoroutines_def)
  have "todo thirty_houses_stalled =
      Send (?hs ! maxGoroutines) # (map Send (drop (Suc maxGoroutines) ?hs) @ [Close])"
    unfolding td using lhs
    by (simp only: Cons_nth_drop_Suc [symmetric, of maxGoroutines ?hs] maxGoroutines_def)
      simp
  moreover have "\<not> list_ex (\<lambda>x. status x = Receiving) (workers thirty_houses_stalled)"
    unfolding list_ex_Receiving using ws len by auto
  ultimately have "\<not> can_step thirty_houses_stalled" by (simp add: can_step_def)
  moreover have "length (sent thirty_houses_stalled) = 20"
    unfolding st using lhs by (simp add: maxGoroutines_def)
  ultimately show ?thesis using reach cl by blast
qed

text \<open>
  C3 does not hold of the code. With ten pages of three houses each and no fatal error,
  the producer has thirty houses to send. Where every photo request fails, each of the
  twenty workers takes one house and leaves \<^verbatim>\<open>downloadHouseImages\<close> by \<^verbatim>\<open>return\<close>:
  twenty houses have been sent, the channel is not closed, and the pipeline has no step
  left, the producer being blocked on the send of the twenty-first house with no worker
  at its receive. In no run from this start is the channel closed or are more than
  twenty houses sent.
\<close>

theorem producer_blocked_before_close:
  "fst (snd (pipeHouses page_server three_house_decoder)) = Normal \<and>
   length (sends (fst (pipeHouses page_server three_house_decoder))) = 30 \<and>
   (step offline_env)\<^sup>*\<^sup>* thirty_houses thirty_houses_stalled \<and>
   length (sent thirty_houses_stalled) = 20 \<and>
   \<not> closed thirty_houses_stalled \<and>
   \<not> (\<exists>q. step offline_env thirty_houses_stalled q) \<and>
   \<not> (\<exists>p. (step offline_env)\<^sup>*\<^sup>* thirty_houses p \<and> (closed p \<or> 20 < length (sent p)))"
proof -
  let ?hs = "concat (map (\<lambda>i. [house_of (pageEndpoint i), house_of (pageEndpoint i),
          house_of (pageEndpoint i)]) [1, 2, 3, 4, 5, 6, 7, 8, 9, 10 :: int])"
  have start: "thirty_houses = main_started (map Send ?hs @ [Close]) world0"
    by (simp add: thirty_houses_def pipeHouses_thirty)
  have "\<not> (\<exists>q. step offline_env thirty_houses_stalled q)"
    using thirty_houses_stalled_state step_can_step by blast
  moreover have "\<not> (\<exists>p. (step offline_env)\<^sup>*\<^sup>* thirty_houses p \<and>
      (closed p \<or> 20 < length (sent p)))"
  proof
    assume "\<exists>p. (step offline_env)\<^sup>*\<^sup>* thirty_houses p \<and> (closed p \<or> 20 < length (sent p))"
    then obtain p where r: "(step offline_env)\<^sup>*\<^sup>* thirty_houses p"
      and c: "closed p \<or> 20 < length (sent p)" by blast
    have "maxGoroutines < length ?hs" by (simp add: maxGoroutines_def)
    from never_closed_when_all_fail [OF offline_fails r [unfolded start] this] c
    show False by (simp add: maxGoroutines_def)
  qed
  ultimately show ?thesis
    using thirty_houses_stalled_state
    by (simp add: pipeHouses_thirty sends_append sends_map_Send)
qed

end
